theory Spec2Isabelle
  imports Complex_Main "HOL-Library.Multiset" "HOL-Library.AList" "HOL-Library.Char_ord"
    "HOL-Library.List_Lexorder"
begin

section \<open>Size cache: insertion-ordered map and trimming\<close>

text \<open>
  The folder-size cache is a JavaScript \<^verbatim>\<open>Map\<close> from path to \<^verbatim>\<open>{ size, mtime }\<close>. A
  \<^verbatim>\<open>Map\<close> iterates its keys in insertion order, \<^verbatim>\<open>set\<close> on a key that is present keeps
  the key's position, and \<^verbatim>\<open>delete\<close> removes the key. It is modelled as an association
  list in insertion order (oldest first).
\<close>

type_synonym path = string

record cache_entry =
  csize :: nat
  mtime :: int

type_synonym ('k, 'v) jsmap = "('k \<times> 'v) list"

definition map_size :: "('k, 'v) jsmap \<Rightarrow> nat" where
  "map_size m = length m"

definition map_keys :: "('k, 'v) jsmap \<Rightarrow> 'k list" where
  "map_keys m = map fst m"

definition map_get :: "('k, 'v) jsmap \<Rightarrow> 'k \<Rightarrow> 'v option" where
  "map_get m k = map_of m k"

definition map_has :: "('k, 'v) jsmap \<Rightarrow> 'k \<Rightarrow> bool" where
  "map_has m k = (k \<in> set (map fst m))"

fun map_set :: "('k, 'v) jsmap \<Rightarrow> 'k \<Rightarrow> 'v \<Rightarrow> ('k, 'v) jsmap" where
  "map_set [] k v = [(k, v)]"
| "map_set ((k', v') # m) k v = (if k' = k then (k, v) # m else (k', v') # map_set m k v)"

definition map_delete :: "('k, 'v) jsmap \<Rightarrow> 'k \<Rightarrow> ('k, 'v) jsmap" where
  "map_delete m k = filter (\<lambda>kv. fst kv \<noteq> k) m"

definition MAX_FOLDER_SIZE_CACHE_ENTRIES :: nat where
  "MAX_FOLDER_SIZE_CACHE_ENTRIES = 500"

text \<open>
  \<^verbatim>\<open>trimCache(cache, maxEntries)\<close>: nothing when the size is within the limit; otherwise
  the keys are snapshotted and the first \<^verbatim>\<open>cache.size - maxEntries\<close> of them are deleted,
  one \<^verbatim>\<open>delete\<close> per loop iteration.
\<close>

fun delete_keys :: "('k, 'v) jsmap \<Rightarrow> 'k list \<Rightarrow> ('k, 'v) jsmap" where
  "delete_keys cache [] = cache"
| "delete_keys cache (k # ks) = delete_keys (map_delete cache k) ks"

definition trimCache :: "('k, 'v) jsmap \<Rightarrow> nat \<Rightarrow> ('k, 'v) jsmap" where
  "trimCache cache maxEntries =
     (if map_size cache \<le> maxEntries then cache
      else let entriesToRemove = map_size cache - maxEntries;
               keys = map_keys cache
           in delete_keys cache (take entriesToRemove keys))"

section \<open>Platform functions\<close>

text \<open>
  The handlers call Node's \<^verbatim>\<open>path\<close> module and JavaScript built-ins that are not code
  of the application. They are parameters of the model, so every theorem holds for any
  behaviour of them. \<^verbatim>\<open>a.localeCompare(b, undefined, { sensitivity: "base" })\<close> compares
  collation keys: it is negative, zero or positive as the key of \<^verbatim>\<open>a\<close> is below, equal to
  or above the key of \<^verbatim>\<open>b\<close> in a linear order \<open>'k\<close>. A \<^verbatim>\<open>Date\<close> is represented by the
  string it is built from.

  JavaScript numbers are IEEE 754 doubles: \<^verbatim>\<open>a / b\<close> and \<^verbatim>\<open>a * b\<close> are the exact quotient
  and product rounded to the nearest double. \<open>double_of\<close> is that rounding, as a function
  on the reals; it never decreases (\<open>mono\<close>) and it maps 0 to 0.
\<close>

type_synonym js_date = string

record 'k jslib =
  path_dirname :: "path \<Rightarrow> path"
  path_basename :: "path \<Rightarrow> string"
  path_join :: "path \<Rightarrow> string \<Rightarrow> path"
  path_extname :: "string \<Rightarrow> string"
  toLowerCase :: "string \<Rightarrow> string"
  parseInt10 :: "string \<Rightarrow> int"
  double_of :: "real \<Rightarrow> real"
  collation_key :: "string \<Rightarrow> 'k"

record js_error =
  err_code :: string
  err_message :: string

record stats =
  st_isFile :: bool
  st_isDirectory :: bool
  st_size :: nat
  st_mtime :: js_date
  st_birthtime :: js_date

record dirent =
  d_name :: string
  d_isDirectory :: bool
  d_isFile :: bool
  d_isSymbolicLink :: bool

text \<open>
  One block of the archive tool's output, as the loop reads it after parsing the block's
  \<^verbatim>\<open>Key = value\<close> lines: the fields \<^verbatim>\<open>Path\<close>, \<^verbatim>\<open>Attributes\<close>, \<^verbatim>\<open>Size\<close> and \<^verbatim>\<open>Modified\<close>, each
  absent (\<open>None\<close>) when the block has no such line.
\<close>

record archive_record =
  Path :: "string option"
  Attributes :: "string option"
  Size :: "string option"
  Modified :: "string option"

text \<open>
  The filesystem and the archive tool are the environment: operations on a state \<open>'s\<close>,
  each returning an error or its result (and, when it writes, the new state).
  \<open>fs_list_archive s archivePath isCompressedTar\<close> stands for running the listing command
  (the two-stage pipeline when \<open>isCompressedTar\<close>) and splitting its output into blocks.
\<close>

record 's fs_ops =
  fs_stat :: "'s \<Rightarrow> path \<Rightarrow> js_error + stats"
  fs_readdir :: "'s \<Rightarrow> path \<Rightarrow> js_error + string list"
  fs_readdir_types :: "'s \<Rightarrow> path \<Rightarrow> js_error + dirent list"
  fs_readlink :: "'s \<Rightarrow> path \<Rightarrow> js_error + string"
  fs_mkdir :: "'s \<Rightarrow> path \<Rightarrow> js_error + 's"
  fs_copyFile :: "'s \<Rightarrow> path \<Rightarrow> path \<Rightarrow> js_error + 's"
  fs_rename :: "'s \<Rightarrow> path \<Rightarrow> path \<Rightarrow> js_error + 's"
  fs_rm :: "'s \<Rightarrow> path \<Rightarrow> js_error + 's"
  fs_list_archive :: "'s \<Rightarrow> path \<Rightarrow> bool \<Rightarrow> js_error + archive_record list"

section \<open>Directory listing\<close>

record dir_entry =
  name :: string
  path :: path
  isDirectory :: bool
  isFile :: bool
  isSymlink :: bool
  linkTarget :: "string option"
  entry_size :: int
  modified :: "js_date option"
  created :: "js_date option"
  extension :: "string option"

datatype listing =
  Success (listing_contents: "dir_entry list") (listing_path: path) (listing_isArchive: bool)
| Failure (listing_error: string)

subsection \<open>Sorting\<close>

definition localeCompare :: "'k::linorder jslib \<Rightarrow> string \<Rightarrow> string \<Rightarrow> int" where
  "localeCompare lib a b =
     (if collation_key lib a < collation_key lib b then - 1
      else if collation_key lib a = collation_key lib b then 0 else 1)"

text \<open>The comparator both handlers pass to \<^verbatim>\<open>contents.sort\<close>.\<close>

definition compare_entries :: "'k::linorder jslib \<Rightarrow> dir_entry \<Rightarrow> dir_entry \<Rightarrow> int" where
  "compare_entries lib a b =
     (if isDirectory a \<and> \<not> isDirectory b then - 1
      else if \<not> isDirectory a \<and> isDirectory b then 1
      else localeCompare lib (name a) (name b))"

text \<open>
  \<^verbatim>\<open>Array.prototype.sort\<close> is a stable sort; with a comparator that is a consistent
  ordering its result is the stable insertion sort's.
\<close>

fun insert_sorted :: "('a \<Rightarrow> 'a \<Rightarrow> int) \<Rightarrow> 'a \<Rightarrow> 'a list \<Rightarrow> 'a list" where
  "insert_sorted cmp x [] = [x]"
| "insert_sorted cmp x (y # ys) =
     (if cmp x y \<le> 0 then x # y # ys else y # insert_sorted cmp x ys)"

definition array_sort :: "('a \<Rightarrow> 'a \<Rightarrow> int) \<Rightarrow> 'a list \<Rightarrow> 'a list" where
  "array_sort cmp xs = foldr (insert_sorted cmp) xs []"

subsection \<open>Real directories\<close>

text \<open>
  The per-child callback of \<^verbatim>\<open>get-directory-contents\<close>. The \<^verbatim>\<open>try\<close> block stats the child
  and, for a symbolic link, reads its target; any error leaves what was assigned before
  it (\<open>stats\<close> stays set when only \<^verbatim>\<open>readlink\<close> fails).
\<close>

definition dir_item :: "'k jslib \<Rightarrow> 's fs_ops \<Rightarrow> 's \<Rightarrow> path \<Rightarrow> dirent \<Rightarrow> dir_entry" where
  "dir_item lib ops s dirPath item =
     (let fullPath = path_join lib dirPath (d_name item);
          stats = (case fs_stat ops s fullPath of Inl e \<Rightarrow> None | Inr st \<Rightarrow> Some st);
          linkTarget = (if stats \<noteq> None \<and> d_isSymbolicLink item
                        then (case fs_readlink ops s fullPath of Inl e \<Rightarrow> None | Inr t \<Rightarrow> Some t)
                        else None)
      in \<lparr> name = d_name item,
           path = fullPath,
           isDirectory = d_isDirectory item,
           isFile = d_isFile item,
           isSymlink = d_isSymbolicLink item,
           linkTarget = linkTarget,
           entry_size = (case stats of None \<Rightarrow> 0 | Some st \<Rightarrow> int (st_size st)),
           modified = (case stats of None \<Rightarrow> None | Some st \<Rightarrow> Some (st_mtime st)),
           created = (case stats of None \<Rightarrow> None | Some st \<Rightarrow> Some (st_birthtime st)),
           extension = (if d_isFile item
                        then Some (toLowerCase lib (path_extname lib (d_name item)))
                        else None) \<rparr>)"

subsection \<open>Archives: finding the archive file\<close>

text \<open>
  What one \<^verbatim>\<open>fs.stat\<close> of the walk tells the loop: a regular file, a directory, something
  that is neither (a socket, a device), or an error.
\<close>

datatype stat_kind = IsFile | IsDirectory | IsOther | StatFailed

definition stat_kind_of :: "'s fs_ops \<Rightarrow> 's \<Rightarrow> path \<Rightarrow> stat_kind" where
  "stat_kind_of ops s p =
     (case fs_stat ops s p of
        Inl e \<Rightarrow> StatFailed
      | Inr st \<Rightarrow> if st_isFile st then IsFile
                 else if st_isDirectory st then IsDirectory else IsOther)"

datatype walk_result =
  Found (found_archive: path) (found_internal: string)
| NotADirectory
| PathNotFound

text \<open>
  The \<^verbatim>\<open>while (depth < 20)\<close> loop of \<^verbatim>\<open>handleArchiveBrowsing\<close>, with its three variables.
  A regular file ends it with \<open>found\<close>; a directory returns the error
  \<^verbatim>\<open>"Not a directory"\<close>; anything else that exists only counts an iteration; a failed stat
  moves up one segment unless the parent is the path itself. Leaving the loop without
  \<open>found\<close> returns \<^verbatim>\<open>"Path not found"\<close>.
\<close>

function walk_up :: "'k jslib \<Rightarrow> 's fs_ops \<Rightarrow> 's \<Rightarrow> nat \<Rightarrow> path \<Rightarrow> string \<Rightarrow> walk_result" where
  "walk_up lib ops s depth archivePath internalPath =
     (if depth < 20 then
        (case stat_kind_of ops s archivePath of
           IsFile \<Rightarrow> Found archivePath internalPath
         | IsDirectory \<Rightarrow> NotADirectory
         | IsOther \<Rightarrow> walk_up lib ops s (depth + 1) archivePath internalPath
         | StatFailed \<Rightarrow>
             (let parent = path_dirname lib archivePath in
              if parent = archivePath then PathNotFound
              else let base = path_basename lib archivePath;
                       internalPath' = (if internalPath \<noteq> [] then path_join lib base internalPath
                                        else base)
                   in walk_up lib ops s (depth + 1) parent internalPath'))
      else PathNotFound)"
  by pat_completeness auto
termination
  by (relation "measure (\<lambda>(lib, ops, s, depth, archivePath, internalPath). 20 - depth)") auto

declare walk_up.simps [simp del]

subsection \<open>The specification's reading of the upward walk\<close>

text \<open>
  One ascension: the last segment of the path is stripped and prepended to the internal
  path. \<open>ascended lib p k\<close> is the pair of the \<open>k\<close>-th ancestor of \<open>p\<close> and the internal
  path accumulated on the way up to it.
\<close>

definition ascend :: "'k jslib \<Rightarrow> path \<times> string \<Rightarrow> path \<times> string" where
  "ascend lib ai =
     (path_dirname lib (fst ai),
      if snd ai \<noteq> [] then path_join lib (path_basename lib (fst ai)) (snd ai)
      else path_basename lib (fst ai))"

fun ascended :: "'k jslib \<Rightarrow> path \<Rightarrow> nat \<Rightarrow> path \<times> string" where
  "ascended lib p 0 = (p, [])"
| "ascended lib p (Suc k) = ascend lib (ascended lib p k)"

text \<open>
  The first \<open>k\<close> stats of the walk all fail, and none of them at a path that is its own
  parent: the walk ascends \<open>k\<close> times.
\<close>

definition ascends :: "'k jslib \<Rightarrow> 's fs_ops \<Rightarrow> 's \<Rightarrow> path \<Rightarrow> nat \<Rightarrow> bool" where
  "ascends lib ops s p k =
     list_all (\<lambda>j. stat_kind_of ops s (fst (ascended lib p j)) = StatFailed
                  \<and> path_dirname lib (fst (ascended lib p j)) \<noteq> fst (ascended lib p j))
       [0..<k]"

subsection \<open>Archives: synthesising the children\<close>

text \<open>String built-ins the loop uses, on strings as character lists.\<close>

definition replace_backslashes :: "string \<Rightarrow> string" where
  "replace_backslashes str = map (\<lambda>c. if c = CHR 0x5C then CHR ''/'' else c) str"

definition startsWith :: "string \<Rightarrow> string \<Rightarrow> bool" where
  "startsWith str pre = (take (length pre) str = pre)"

definition endsWith :: "string \<Rightarrow> string \<Rightarrow> bool" where
  "endsWith str suf = (length suf \<le> length str \<and> drop (length str - length suf) str = suf)"

definition slice_from :: "string \<Rightarrow> nat \<Rightarrow> string" where
  "slice_from str n = drop n str"

definition str_includes :: "string \<Rightarrow> char \<Rightarrow> bool" where
  "str_includes str c = (c \<in> set str)"

text \<open>
  \<^verbatim>\<open>str.split(sep)\<close> for a one-character separator. The result is never empty: the
  empty string splits into one empty part.
\<close>

fun js_split :: "char \<Rightarrow> string \<Rightarrow> string list" where
  "js_split sep [] = [[]]"
| "js_split sep (c # cs) =
     (if c = sep then [] # js_split sep cs
      else (case js_split sep cs of [] \<Rightarrow> [[c]] | p # ps \<Rightarrow> (c # p) # ps))"

definition ascii_lower :: "char \<Rightarrow> char" where
  "ascii_lower c =
     (if CHR ''A'' \<le> c \<and> c \<le> CHR ''Z'' then char_of (of_char c + (32::nat)) else c)"

text \<open>The test \<^verbatim>\<open>/\.(tar\.(gz|xz|bz2)|tgz|txz|tbz2)$/i\<close> on the archive's path.\<close>

definition isCompressedTar :: "path \<Rightarrow> bool" where
  "isCompressedTar archivePath =
     (let lower = map ascii_lower archivePath in
      list_ex (endsWith lower)
        [''.tar.gz'', ''.tar.xz'', ''.tar.bz2'', ''.tgz'', ''.txz'', ''.tbz2''])"

text \<open>
  \<^verbatim>\<open>entry.Attributes && entry.Attributes.includes('D')\<close>, by its truth value: a missing or
  empty field is falsy.
\<close>

definition attributes_mark_directory :: "archive_record \<Rightarrow> bool" where
  "attributes_mark_directory entry =
     (case Attributes entry of None \<Rightarrow> False | Some a \<Rightarrow> a \<noteq> [] \<and> str_includes a (CHR ''D''))"

text \<open>
  The object pushed to \<open>contents\<close> for a record whose relative path splits into \<open>child\<close>
  and \<open>rest\<close> (\<^verbatim>\<open>parts.length === 1\<close> is \<open>rest = []\<close>).
\<close>

definition archive_item ::
  "'k jslib \<Rightarrow> path \<Rightarrow> archive_record \<Rightarrow> string \<Rightarrow> string list \<Rightarrow> dir_entry" where
  "archive_item lib fullPath entry child rest =
     (let isDirectChild = (rest = []);
          isDir = (\<not> isDirectChild \<or> attributes_mark_directory entry)
      in \<lparr> name = child,
           path = path_join lib fullPath child,
           isDirectory = isDir,
           isFile = (\<not> isDir),
           isSymlink = False,
           linkTarget = None,
           entry_size =
             (if isDir then 0
              else parseInt10 lib
                     (case Size entry of None \<Rightarrow> ''0'' | Some z \<Rightarrow> if z = [] then ''0'' else z)),
           modified =
             (case Modified entry of None \<Rightarrow> None | Some m \<Rightarrow> if m = [] then None else Some m),
           created = None,
           extension = (if isDir then None else Some (toLowerCase lib (path_extname lib child))) \<rparr>)"

text \<open>
  The \<^verbatim>\<open>for (const block of blocks)\<close> loop, with \<open>seen\<close> and \<open>contents\<close> as accumulators.
  Each \<^verbatim>\<open>continue\<close> is a recursive call that leaves both unchanged.
\<close>

fun archive_loop ::
  "'k jslib \<Rightarrow> path \<Rightarrow> string \<Rightarrow> archive_record list \<Rightarrow> string set \<Rightarrow> dir_entry list
     \<Rightarrow> dir_entry list" where
  "archive_loop lib fullPath normalizedInternal [] seen acc = acc"
| "archive_loop lib fullPath normalizedInternal (entry # blocks) seen acc =
     (case Path entry of
        None \<Rightarrow> archive_loop lib fullPath normalizedInternal blocks seen acc
      | Some p \<Rightarrow>
          if p = [] then archive_loop lib fullPath normalizedInternal blocks seen acc
          else
            let entryPath = replace_backslashes p in
            if normalizedInternal \<noteq> [] \<and> \<not> startsWith entryPath (normalizedInternal @ ''/'')
            then archive_loop lib fullPath normalizedInternal blocks seen acc
            else
              let relative = (if normalizedInternal \<noteq> []
                              then slice_from entryPath (length normalizedInternal + 1)
                              else entryPath) in
              if relative = [] then archive_loop lib fullPath normalizedInternal blocks seen acc
              else
                (case js_split (CHR ''/'') relative of
                   [] \<Rightarrow> archive_loop lib fullPath normalizedInternal blocks seen acc
                 | child # rest \<Rightarrow>
                     if child \<in> seen
                     then archive_loop lib fullPath normalizedInternal blocks seen acc
                     else archive_loop lib fullPath normalizedInternal blocks
                            (insert child seen)
                            (acc @ [archive_item lib fullPath entry child rest])))"

definition handleArchiveBrowsing :: "'k::linorder jslib \<Rightarrow> 's fs_ops \<Rightarrow> 's \<Rightarrow> path \<Rightarrow> listing" where
  "handleArchiveBrowsing lib ops s fullPath =
     (case walk_up lib ops s 0 fullPath [] of
        NotADirectory \<Rightarrow> Failure ''Not a directory''
      | PathNotFound \<Rightarrow> Failure ''Path not found''
      | Found archivePath internalPath \<Rightarrow>
          (case fs_list_archive ops s archivePath (isCompressedTar archivePath) of
             Inl err \<Rightarrow> Failure (''Failed to read archive (7z required): '' @ err_message err)
           | Inr blocks \<Rightarrow>
               Success
                 (array_sort (compare_entries lib)
                    (archive_loop lib fullPath (replace_backslashes internalPath) blocks {} []))
                 fullPath True))"

text \<open>
  The \<^verbatim>\<open>get-directory-contents\<close> handler: the real directory when \<^verbatim>\<open>readdir\<close> succeeds, the
  archive branch when it fails with \<^verbatim>\<open>ENOTDIR\<close> or \<^verbatim>\<open>ENOENT\<close>, the error's message otherwise.
\<close>

definition get_directory_contents :: "'k::linorder jslib \<Rightarrow> 's fs_ops \<Rightarrow> 's \<Rightarrow> path \<Rightarrow> listing" where
  "get_directory_contents lib ops s dirPath =
     (case fs_readdir_types ops s dirPath of
        Inr items \<Rightarrow>
          Success (array_sort (compare_entries lib) (map (dir_item lib ops s dirPath) items))
            dirPath False
      | Inl err \<Rightarrow>
          if err_code err = ''ENOTDIR'' \<or> err_code err = ''ENOENT''
          then handleArchiveBrowsing lib ops s dirPath
          else Failure (err_message err))"

subsection \<open>The specification's reading of an archive listing\<close>

text \<open>
  The relative path of a record's path \<open>p\<close> under the internal path \<open>I\<close>, when \<open>p\<close> is a
  strict descendant of \<open>I\<close>: \<open>p\<close> is \<open>I\<close>, a slash and a non-empty rest. Under the archive
  root (the empty \<open>I\<close>) every non-empty path is a strict descendant.
\<close>

definition relative_to :: "string \<Rightarrow> string \<Rightarrow> string option" where
  "relative_to I p =
     (if I = [] then (if p = [] then None else Some p)
      else if length I + 1 < length p \<and> take (length I + 1) p = I @ ''/''
           then Some (drop (length I + 1) p) else None)"

text \<open>
  The rows of a listing: for each record strictly under \<open>I\<close>, in the tool's order, the
  segments of its relative path and the record.
\<close>

definition record_row :: "string \<Rightarrow> archive_record \<Rightarrow> (string list \<times> archive_record) option" where
  "record_row I r =
     (case Path r of
        None \<Rightarrow> None
      | Some p \<Rightarrow>
          (case relative_to I (replace_backslashes p) of
             None \<Rightarrow> None
           | Some rel \<Rightarrow> Some (js_split (CHR ''/'') rel, r)))"

definition descendant_rows :: "string \<Rightarrow> archive_record list \<Rightarrow> (string list \<times> archive_record) list" where
  "descendant_rows I records = List.map_filter (record_row I) records"

definition child_name :: "string list \<times> archive_record \<Rightarrow> string" where
  "child_name row = (case fst row of [] \<Rightarrow> [] | seg # rest \<Rightarrow> seg)"

definition child_is_directory :: "string list \<times> archive_record \<Rightarrow> bool" where
  "child_is_directory row = (1 < length (fst row) \<or> attributes_mark_directory (snd row))"

section \<open>Folder sizes: cache lookup and scheduler\<close>

definition FOLDER_SIZE_CONCURRENCY :: int where
  "FOLDER_SIZE_CONCURRENCY = 3"

definition FOLDER_SIZE_CACHE_TTL_MS :: int where
  "FOLDER_SIZE_CACHE_TTL_MS = 5 * 60 * 1000"

text \<open>
  An element of \<^verbatim>\<open>currentItems\<close>, as the scheduler reads it: its path and, when
  \<^verbatim>\<open>item.modified\<close> is set, the milliseconds \<^verbatim>\<open>new Date(item.modified).getTime()\<close>.
\<close>

record item =
  item_path :: path
  item_modified :: "int option"

text \<open>
  The module's variables. \<open>running\<close> lists the computations that have been started (the
  async function has been called) and have not reached their \<^verbatim>\<open>finally\<close> block: the
  pending promises themselves, next to the bookkeeping in \<open>folderSizeInFlight\<close> and
  \<open>folderSizeActive\<close>. \<open>cells\<close> records the size cells written, oldest first (\<open>None\<close> for
  an unknown size).
\<close>

record sched =
  folderSizeCache :: "(path, cache_entry) jsmap"
  folderSizeInFlight :: "path set"
  folderSizeQueue :: "path list"
  folderSizeActive :: int
  currentItems :: "item list"
  calculateFolderSizes :: bool
  running :: "path list"
  cells :: "(path \<times> nat option) list"

definition updateFolderSizeCell :: "sched \<Rightarrow> path \<Rightarrow> nat option \<Rightarrow> sched" where
  "updateFolderSizeCell st folderPath sizeOrNull =
     st\<lparr>cells := cells st @ [(folderPath, sizeOrNull)]\<rparr>"

text \<open>
  \<^verbatim>\<open>item && item.modified ? new Date(item.modified).getTime() : 0\<close> for the first current
  item with the path.
\<close>

definition currentMtime :: "sched \<Rightarrow> path \<Rightarrow> int" where
  "currentMtime st folderPath =
     (case find (\<lambda>i. item_path i = folderPath) (currentItems st) of
        None \<Rightarrow> 0
      | Some i \<Rightarrow> (case item_modified i of None \<Rightarrow> 0 | Some t \<Rightarrow> t))"

text \<open>\<^verbatim>\<open>cached && cached.mtime === currentMtime ? cached : null\<close>.\<close>

definition fresh :: "sched \<Rightarrow> path \<Rightarrow> cache_entry option" where
  "fresh st folderPath =
     (case map_get (folderSizeCache st) folderPath of
        None \<Rightarrow> None
      | Some cached \<Rightarrow> if mtime cached = currentMtime st folderPath then Some cached else None)"

text \<open>
  \<^verbatim>\<open>drainFolderSizeQueue\<close>: while a slot is free and the queue is not empty, shift a path;
  skip it when it is empty, freshly cached (the cell is written) or in flight; otherwise
  count it active, start its computation and record its promise.
\<close>

function drainFolderSizeQueue :: "sched \<Rightarrow> sched" where
  "drainFolderSizeQueue st =
     (if folderSizeActive st < FOLDER_SIZE_CONCURRENCY \<and> folderSizeQueue st \<noteq> [] then
        (let folderPath = hd (folderSizeQueue st);
             st1 = st\<lparr>folderSizeQueue := tl (folderSizeQueue st)\<rparr>
         in if folderPath = [] then drainFolderSizeQueue st1
            else (case fresh st1 folderPath of
                    Some cached \<Rightarrow>
                      drainFolderSizeQueue (updateFolderSizeCell st1 folderPath (Some (csize cached)))
                  | None \<Rightarrow>
                      if folderPath \<in> folderSizeInFlight st1 then drainFolderSizeQueue st1
                      else drainFolderSizeQueue
                             (st1\<lparr>folderSizeActive := folderSizeActive st1 + 1,
                                  running := running st1 @ [folderPath],
                                  folderSizeInFlight := insert folderPath (folderSizeInFlight st1)\<rparr>)))
      else st)"
  by pat_completeness auto
termination
  by (relation "measure (\<lambda>st. length (folderSizeQueue st))")
     (auto simp: updateFolderSizeCell_def)

declare drainFolderSizeQueue.simps [simp del]

definition enqueueFolderSize :: "sched \<Rightarrow> path \<Rightarrow> sched" where
  "enqueueFolderSize st folderPath =
     drainFolderSizeQueue (st\<lparr>folderSizeQueue := folderSizeQueue st @ [folderPath]\<rparr>)"

text \<open>
  The body of the loop of \<^verbatim>\<open>scheduleVisibleFolderSizes\<close> for one directory row, and the
  loop over the rows' paths.
\<close>

definition schedule_row :: "sched \<Rightarrow> path \<Rightarrow> sched" where
  "schedule_row st folderPath =
     (if folderPath = [] then st
      else (case fresh st folderPath of
              Some cached \<Rightarrow> updateFolderSizeCell st folderPath (Some (csize cached))
            | None \<Rightarrow>
                if folderPath \<notin> folderSizeInFlight st then enqueueFolderSize st folderPath
                else st))"

definition scheduleVisibleFolderSizes :: "sched \<Rightarrow> path list \<Rightarrow> sched" where
  "scheduleVisibleFolderSizes st rows =
     (if \<not> calculateFolderSizes st then st else foldl schedule_row st rows)"

text \<open>
  The continuation of a started computation once \<^verbatim>\<open>getItemInfo\<close> settles; that is in a
  later turn of the event loop, since \<^verbatim>\<open>getItemInfo\<close> is an inter-process call that
  returns a promise and the computation awaits it. \<open>res\<close> is
  \<open>Some (size, modified_ms)\<close> when the reply is a success with a numeric size, \<open>None\<close> for any
  other reply or an exception. The \<^verbatim>\<open>finally\<close> block frees the slot, forgets the promise
  and drains the queue.
\<close>

definition computation_settled :: "sched \<Rightarrow> path \<Rightarrow> (nat \<times> int option) option \<Rightarrow> sched" where
  "computation_settled st folderPath res =
     (let st1 = (case res of
                   Some (sz, modified_ms) \<Rightarrow>
                     updateFolderSizeCell
                       (st\<lparr>folderSizeCache :=
                             map_set (folderSizeCache st) folderPath
                               \<lparr> csize = sz,
                                 mtime = (case modified_ms of None \<Rightarrow> 0 | Some t \<Rightarrow> t) \<rparr>\<rparr>)
                       folderPath (Some sz)
                 | None \<Rightarrow> updateFolderSizeCell st folderPath None)
      in drainFolderSizeQueue
           (st1\<lparr>folderSizeActive := folderSizeActive st1 - 1,
                folderSizeInFlight := folderSizeInFlight st1 - {folderPath},
                running := remove1 folderPath (running st1)\<rparr>))"

text \<open>
  What can happen to the scheduler between two turns of the event loop. A computation
  settles only if it is running. \<^verbatim>\<open>finishNavigation\<close> empties the queue, the save timer
  trims the cache, \<^verbatim>\<open>refresh\<close> deletes the cache entries of the current directories (here:
  of the given paths), navigation replaces the current items.
\<close>

datatype event =
  ScheduleVisible "path list"
| Enqueue path
| Settled path "(nat \<times> int option) option"
| FinishNavigation
| SaveCacheTimer
| Refresh "path list"
| Navigated "item list"
| SetCalculate bool

fun step :: "sched \<Rightarrow> event \<Rightarrow> sched" where
  "step st (ScheduleVisible rows) = scheduleVisibleFolderSizes st rows"
| "step st (Enqueue folderPath) = enqueueFolderSize st folderPath"
| "step st (Settled folderPath res) =
     (if folderPath \<in> set (running st) then computation_settled st folderPath res else st)"
| "step st FinishNavigation = st\<lparr>folderSizeQueue := []\<rparr>"
| "step st SaveCacheTimer =
     st\<lparr>folderSizeCache := trimCache (folderSizeCache st) MAX_FOLDER_SIZE_CACHE_ENTRIES\<rparr>"
| "step st (Refresh paths) =
     st\<lparr>folderSizeCache := foldl map_delete (folderSizeCache st) paths\<rparr>"
| "step st (Navigated items) = st\<lparr>currentItems := items\<rparr>"
| "step st (SetCalculate b) = st\<lparr>calculateFolderSizes := b\<rparr>"

text \<open>The state at start-up, with the cache as loaded from storage and trimmed.\<close>

definition initial_sched :: "(path, cache_entry) jsmap \<Rightarrow> sched" where
  "initial_sched saved =
     \<lparr> folderSizeCache = trimCache saved MAX_FOLDER_SIZE_CACHE_ENTRIES,
       folderSizeInFlight = {},
       folderSizeQueue = [],
       folderSizeActive = 0,
       currentItems = [],
       calculateFolderSizes = True,
       running = [],
       cells = [] \<rparr>"

definition run_events :: "sched \<Rightarrow> event list \<Rightarrow> sched" where
  "run_events st evs = foldl step st evs"



subsection \<open>The specification's reading of a cache hit\<close>

text \<open>
  The specification's cache entry carries the time it was cached, and its hit needs a
  matching modification time and an age within the time-to-live.
\<close>

record spec_cache_entry =
  sizeBytes :: nat
  sourceModifiedAt :: int
  cachedAt :: int

definition spec_cache_hit :: "int \<Rightarrow> int \<Rightarrow> spec_cache_entry \<Rightarrow> int \<Rightarrow> bool" where
  "spec_cache_hit ttl now e current_mtime =
     (sourceModifiedAt e = current_mtime \<and> now - cachedAt e \<le> ttl)"

section \<open>Batch transfer\<close>

text \<open>
  The \<^verbatim>\<open>batch-file-operation\<close> handler. Its local variables and what it does to the
  world are one state: the filesystem, the four counters, the \<^verbatim>\<open>itemSizes\<close> map, the
  percentages sent on \<^verbatim>\<open>file-operation-progress\<close> (oldest first), and the filesystem calls
  of the execution phase in the order they are made.
\<close>

record transfer_item =
  source :: path
  dest :: path

datatype fs_call =
  Stat path
| Readdir path
| Mkdir path
| CopyFile path path
| Rename path path
| Rm path

record 's xfer =
  fsys :: 's
  totalBytes :: nat
  processedBytes :: nat
  totalFiles :: nat
  processedFiles :: nat
  itemSizes :: "(path, nat) jsmap"
  sent :: "real list"
  calls :: "fs_call list"

definition called :: "'s xfer \<Rightarrow> fs_call \<Rightarrow> 's xfer" where
  "called st c = st\<lparr>calls := calls st @ [c]\<rparr>"

text \<open>\<^verbatim>\<open>itemSizes.get(p) || 0\<close>.\<close>

definition item_size :: "'s xfer \<Rightarrow> path \<Rightarrow> nat" where
  "item_size st p = (case map_get (itemSizes st) p of None \<Rightarrow> 0 | Some n \<Rightarrow> n)"

subsection \<open>Scan phase\<close>

text \<open>
  \<^verbatim>\<open>scan(p, rootItemPath)\<close>. The recursion follows the directory tree as the filesystem
  reports it, so the model bounds its depth by a fuel argument; \<open>None\<close> means the fuel
  ran out. The \<^verbatim>\<open>try\<close> block swallows every error: a failed \<^verbatim>\<open>stat\<close> or \<^verbatim>\<open>readdir\<close> leaves
  the totals as they are.
\<close>

fun scan ::
  "'k jslib \<Rightarrow> 's fs_ops \<Rightarrow> nat \<Rightarrow> 's xfer \<Rightarrow> path \<Rightarrow> path \<Rightarrow> 's xfer option"
and scan_children ::
  "'k jslib \<Rightarrow> 's fs_ops \<Rightarrow> nat \<Rightarrow> 's xfer \<Rightarrow> path \<Rightarrow> string list \<Rightarrow> path \<Rightarrow> 's xfer option"
where
  "scan lib ops 0 st p rootItemPath = None"
| "scan lib ops (Suc fuel) st p rootItemPath =
     (case fs_stat ops (fsys st) p of
        Inl e \<Rightarrow> Some st
      | Inr stats \<Rightarrow>
          if st_isDirectory stats then
            (case fs_readdir ops (fsys st) p of
               Inl e \<Rightarrow> Some st
             | Inr children \<Rightarrow> scan_children lib ops fuel st p children rootItemPath)
          else
            Some (st\<lparr>totalBytes := totalBytes st + st_size stats,
                     totalFiles := totalFiles st + 1,
                     itemSizes := map_set (itemSizes st) rootItemPath
                                    (item_size st rootItemPath + st_size stats)\<rparr>))"
| "scan_children lib ops fuel st p [] rootItemPath = Some st"
| "scan_children lib ops fuel st p (c # cs) rootItemPath =
     (case scan lib ops fuel st (path_join lib p c) rootItemPath of
        None \<Rightarrow> None
      | Some st' \<Rightarrow> scan_children lib ops fuel st' p cs rootItemPath)"

fun scan_items ::
  "'k jslib \<Rightarrow> 's fs_ops \<Rightarrow> nat \<Rightarrow> 's xfer \<Rightarrow> transfer_item list \<Rightarrow> 's xfer option" where
  "scan_items lib ops fuel st [] = Some st"
| "scan_items lib ops fuel st (item # items) =
     (case scan lib ops fuel st (source item) (source item) of
        None \<Rightarrow> None
      | Some st' \<Rightarrow> scan_items lib ops fuel st' items)"

definition initial_xfer :: "'s \<Rightarrow> 's xfer" where
  "initial_xfer s =
     \<lparr> fsys = s, totalBytes = 0, processedBytes = 0, totalFiles = 0, processedFiles = 0,
       itemSizes = [], sent = [], calls = [] \<rparr>"

text \<open>The scan over all items, then \<^verbatim>\<open>if (totalBytes === 0) totalBytes = 1\<close>.\<close>

definition scan_phase ::
  "'k jslib \<Rightarrow> 's fs_ops \<Rightarrow> nat \<Rightarrow> 's \<Rightarrow> transfer_item list \<Rightarrow> 's xfer option" where
  "scan_phase lib ops fuel s items =
     (case scan_items lib ops fuel (initial_xfer s) items of
        None \<Rightarrow> None
      | Some st \<Rightarrow> Some (if totalBytes st = 0 then st\<lparr>totalBytes := 1\<rparr> else st))"

subsection \<open>Execution phase\<close>

text \<open>
  \<^verbatim>\<open>Math.min(100, (processedBytes / totalBytes) * 100)\<close>: the quotient of the two counters
  rounded to a double, its product with 100 rounded to a double, and the smaller of that
  and 100. The counters are sums of file sizes, integers that doubles hold exactly (up
  to \<open>2 ^ 53\<close>); they are naturals here.
\<close>

definition percent :: "'k jslib \<Rightarrow> nat \<Rightarrow> nat \<Rightarrow> real" where
  "percent lib tb pb = min 100 (double_of lib (double_of lib (real pb / real tb) * 100))"

text \<open>\<^verbatim>\<open>reportProgress()\<close> sends the percentage of the counters as they are when it is called.\<close>

definition reportProgress :: "'k jslib \<Rightarrow> 's xfer \<Rightarrow> 's xfer" where
  "reportProgress lib st =
     st\<lparr>sent := sent st @ [percent lib (totalBytes st) (processedBytes st)]\<rparr>"

text \<open>
  How a piece of the execution ends: normally, by an exception that propagates, or (in
  the model only) with the fuel used up.
\<close>

datatype outcome = Done | Raised js_error | OutOfFuel

text \<open>
  \<^verbatim>\<open>copyRecursive(src, dest)\<close>, and its loop over the children of a directory. Every
  \<^verbatim>\<open>await\<close> that rejects ends the function with the error.
\<close>

fun copyRecursive ::
  "'k jslib \<Rightarrow> 's fs_ops \<Rightarrow> nat \<Rightarrow> 's xfer \<Rightarrow> path \<Rightarrow> path \<Rightarrow> outcome \<times> 's xfer"
and copy_children ::
  "'k jslib \<Rightarrow> 's fs_ops \<Rightarrow> nat \<Rightarrow> 's xfer \<Rightarrow> path \<Rightarrow> path \<Rightarrow> string list \<Rightarrow> outcome \<times> 's xfer"
where
  "copyRecursive lib ops 0 st src dst = (OutOfFuel, st)"
| "copyRecursive lib ops (Suc fuel) st src dst =
     (let st0 = called st (Stat src) in
      case fs_stat ops (fsys st0) src of
        Inl e \<Rightarrow> (Raised e, st0)
      | Inr stats \<Rightarrow>
          if st_isDirectory stats then
            (let st1 = called st0 (Mkdir dst) in
             case fs_mkdir ops (fsys st1) dst of
               Inl e \<Rightarrow> (Raised e, st1)
             | Inr s' \<Rightarrow>
                 (let st2 = called (st1\<lparr>fsys := s'\<rparr>) (Readdir src) in
                  case fs_readdir ops (fsys st2) src of
                    Inl e \<Rightarrow> (Raised e, st2)
                  | Inr children \<Rightarrow> copy_children lib ops fuel st2 src dst children))
          else
            (let st1 = called st0 (CopyFile src dst) in
             case fs_copyFile ops (fsys st1) src dst of
               Inl e \<Rightarrow> (Raised e, st1)
             | Inr s' \<Rightarrow>
                 (Done,
                  reportProgress lib
                    (st1\<lparr>fsys := s',
                         processedBytes := processedBytes st1 + st_size stats,
                         processedFiles := processedFiles st1 + 1\<rparr>))))"
| "copy_children lib ops fuel st src dst [] = (Done, st)"
| "copy_children lib ops fuel st src dst (child # children) =
     (case copyRecursive lib ops fuel st (path_join lib src child) (path_join lib dst child) of
        (Done, st') \<Rightarrow> copy_children lib ops fuel st' src dst children
      | (Raised e, st') \<Rightarrow> (Raised e, st')
      | (OutOfFuel, st') \<Rightarrow> (OutOfFuel, st'))"

text \<open>
  The body of the \<^verbatim>\<open>for (const item of items)\<close> loop. Any operation other than
  \<^verbatim>\<open>"copy"\<close> is a move: the rename is tried inside its own \<^verbatim>\<open>try\<close>; its \<^verbatim>\<open>catch\<close> block
  copies and then removes the source, and an error raised there propagates.
\<close>

definition process_item ::
  "'k jslib \<Rightarrow> 's fs_ops \<Rightarrow> nat \<Rightarrow> string \<Rightarrow> 's xfer \<Rightarrow> transfer_item \<Rightarrow> outcome \<times> 's xfer" where
  "process_item lib ops fuel operation st item =
     (if operation = ''copy'' then copyRecursive lib ops fuel st (source item) (dest item)
      else
        (let st0 = called st (Rename (source item) (dest item)) in
         case fs_rename ops (fsys st0) (source item) (dest item) of
           Inr s' \<Rightarrow>
             (Done,
              reportProgress lib
                (st0\<lparr>fsys := s',
                     processedBytes := processedBytes st0 + item_size st0 (source item)\<rparr>))
         | Inl err \<Rightarrow>
             (case copyRecursive lib ops fuel st0 (source item) (dest item) of
                (Done, st1) \<Rightarrow>
                  (let st2 = called st1 (Rm (source item)) in
                   case fs_rm ops (fsys st2) (source item) of
                     Inl e \<Rightarrow> (Raised e, st2)
                   | Inr s' \<Rightarrow> (Done, st2\<lparr>fsys := s'\<rparr>))
              | (Raised e, st1) \<Rightarrow> (Raised e, st1)
              | (OutOfFuel, st1) \<Rightarrow> (OutOfFuel, st1))))"

text \<open>The loop inside the outer \<^verbatim>\<open>try\<close>: the first exception leaves it.\<close>

fun process_items ::
  "'k jslib \<Rightarrow> 's fs_ops \<Rightarrow> nat \<Rightarrow> string \<Rightarrow> 's xfer \<Rightarrow> transfer_item list \<Rightarrow> outcome \<times> 's xfer" where
  "process_items lib ops fuel operation st [] = (Done, st)"
| "process_items lib ops fuel operation st (item # items) =
     (case process_item lib ops fuel operation st item of
        (Done, st') \<Rightarrow> process_items lib ops fuel operation st' items
      | (Raised e, st') \<Rightarrow> (Raised e, st')
      | (OutOfFuel, st') \<Rightarrow> (OutOfFuel, st'))"

datatype batch_result = BatchSuccess | BatchFailure string | NoReturn

text \<open>
  The handler: scan, execute, and \<^verbatim>\<open>{ success: true }\<close> after the loop or
  \<^verbatim>\<open>{ success: false, error: error.message }\<close> from the outer \<^verbatim>\<open>catch\<close>. The final state is
  returned with the reply.
\<close>

definition batch_file_operation ::
  "'k jslib \<Rightarrow> 's fs_ops \<Rightarrow> nat \<Rightarrow> 's \<Rightarrow> transfer_item list \<Rightarrow> string \<Rightarrow> batch_result \<times> 's xfer" where
  "batch_file_operation lib ops fuel s items operation =
     (case scan_phase lib ops fuel s items of
        None \<Rightarrow> (NoReturn, initial_xfer s)
      | Some st \<Rightarrow>
          (case process_items lib ops fuel operation st items of
             (Done, st') \<Rightarrow> (BatchSuccess, st')
           | (Raised e, st') \<Rightarrow> (BatchFailure (err_message e), st')
           | (OutOfFuel, st') \<Rightarrow> (NoReturn, st')))"

subsection \<open>Notions for stating the transfer's properties\<close>

text \<open>
  The percentages sent so far are the percentages of the values that \<open>processedBytes\<close>
  has taken, in the order it took them: a non-decreasing sequence that ends with its
  present value (which is 0 while nothing has been sent).
\<close>

definition progress_inv :: "'k jslib \<Rightarrow> 's xfer \<Rightarrow> bool" where
  "progress_inv lib st =
     (\<exists>pbs. sent st = map (percent lib (totalBytes st)) pbs \<and> sorted pbs
            \<and> processedBytes st = last (0 # pbs))"

fun is_removal :: "fs_call \<Rightarrow> bool" where
  "is_removal (Rm p) = True"
| "is_removal c = False"

definition removals :: "'s xfer \<Rightarrow> fs_call list" where
  "removals st = filter is_removal (calls st)"

text \<open>
  What every piece of the execution keeps: the total and the item sizes of the scan,
  \<open>processedBytes\<close> not decreasing, and the invariant of the percentages.
\<close>

definition keeps :: "'k jslib \<Rightarrow> 's xfer \<Rightarrow> 's xfer \<Rightarrow> bool" where
  "keeps lib st st' =
     (totalBytes st' = totalBytes st \<and> itemSizes st' = itemSizes st
      \<and> processedBytes st \<le> processedBytes st'
      \<and> (progress_inv lib st \<longrightarrow> progress_inv lib st'))"

section \<open>A small instance, for running the model\<close>

text \<open>
  Simple stand-ins for the platform functions on normalised POSIX paths, with the
  ASCII case fold as collation key and exact arithmetic in place of the rounding to
  doubles (the examples use quotients and products that doubles hold exactly), and a
  filesystem that is a table from paths to their \<open>stats\<close>. They serve to evaluate the
  handlers on concrete inputs.
\<close>

definition example_dirname :: "path \<Rightarrow> path" where
  "example_dirname p =
     (let d = rev (drop 1 (dropWhile (\<lambda>c. c \<noteq> CHR ''/'') (rev p)))
      in if d = [] then (if take 1 p = ''/'' then ''/'' else ''.'') else d)"

definition example_basename :: "path \<Rightarrow> string" where
  "example_basename p = rev (takeWhile (\<lambda>c. c \<noteq> CHR ''/'') (rev p))"

definition example_join :: "path \<Rightarrow> string \<Rightarrow> path" where
  "example_join a b = (if a = ''/'' then a @ b else a @ ''/'' @ b)"

definition example_extname :: "string \<Rightarrow> string" where
  "example_extname n =
     (if CHR ''.'' \<in> set (drop 1 n) then CHR ''.'' # rev (takeWhile (\<lambda>c. c \<noteq> CHR ''.'') (rev n))
      else [])"

definition example_parseInt :: "string \<Rightarrow> int" where
  "example_parseInt str =
     foldl (\<lambda>a c. 10 * a + (int (of_char c) - 48)) 0
       (takeWhile (\<lambda>c. CHR ''0'' \<le> c \<and> c \<le> CHR ''9'') str)"

definition example_lib :: "string jslib" where
  "example_lib =
     \<lparr> path_dirname = example_dirname,
       path_basename = example_basename,
       path_join = example_join,
       path_extname = example_extname,
       toLowerCase = map ascii_lower,
       parseInt10 = example_parseInt,
       double_of = (\<lambda>x. x),
       collation_key = map ascii_lower \<rparr>"

type_synonym example_fs = "(path \<times> stats) list"

definition file_node :: "nat \<Rightarrow> stats" where
  "file_node n =
     \<lparr> st_isFile = True, st_isDirectory = False, st_size = n, st_mtime = ''m'', st_birthtime = ''b'' \<rparr>"

definition dir_node :: stats where
  "dir_node =
     \<lparr> st_isFile = False, st_isDirectory = True, st_size = 0, st_mtime = ''m'', st_birthtime = ''b'' \<rparr>"

definition enoent :: js_error where
  "enoent = \<lparr> err_code = ''ENOENT'', err_message = ''no such file or directory'' \<rparr>"

definition enotdir :: js_error where
  "enotdir = \<lparr> err_code = ''ENOTDIR'', err_message = ''not a directory'' \<rparr>"

definition exdev :: js_error where
  "exdev = \<lparr> err_code = ''EXDEV'', err_message = ''cross-device link not permitted'' \<rparr>"

definition eacces :: js_error where
  "eacces = \<lparr> err_code = ''EACCES'', err_message = ''permission denied'' \<rparr>"

definition example_stat :: "example_fs \<Rightarrow> path \<Rightarrow> js_error + stats" where
  "example_stat s p =
     (case map_of s p of
        Some st \<Rightarrow> Inr st
      | None \<Rightarrow>
          (case map_of s (example_dirname p) of
             Some st \<Rightarrow> if st_isFile st then Inl enotdir else Inl enoent
           | None \<Rightarrow> Inl enoent))"

definition example_children :: "example_fs \<Rightarrow> path \<Rightarrow> path list" where
  "example_children s p = filter (\<lambda>q. q \<noteq> p \<and> example_dirname q = p) (map fst s)"

definition example_readdir :: "example_fs \<Rightarrow> path \<Rightarrow> js_error + string list" where
  "example_readdir s p =
     (case example_stat s p of
        Inl e \<Rightarrow> Inl e
      | Inr st \<Rightarrow> if st_isDirectory st then Inr (map example_basename (example_children s p))
                 else Inl enotdir)"

definition example_dirent :: "example_fs \<Rightarrow> path \<Rightarrow> dirent" where
  "example_dirent s q =
     (case map_of s q of
        None \<Rightarrow> \<lparr> d_name = example_basename q, d_isDirectory = False, d_isFile = False,
                  d_isSymbolicLink = False \<rparr>
      | Some st \<Rightarrow> \<lparr> d_name = example_basename q, d_isDirectory = st_isDirectory st,
                     d_isFile = st_isFile st, d_isSymbolicLink = False \<rparr>)"

definition example_readdir_types :: "example_fs \<Rightarrow> path \<Rightarrow> js_error + dirent list" where
  "example_readdir_types s p =
     (case example_stat s p of
        Inl e \<Rightarrow> Inl e
      | Inr st \<Rightarrow> if st_isDirectory st then Inr (map (example_dirent s) (example_children s p))
                 else Inl enotdir)"

text \<open>Copying to a path listed in \<open>unwritable\<close> fails; so does copying what is not a file.\<close>

definition example_copyFile :: "path list \<Rightarrow> example_fs \<Rightarrow> path \<Rightarrow> path \<Rightarrow> js_error + example_fs" where
  "example_copyFile unwritable s src dst =
     (case map_of s src of
        None \<Rightarrow> Inl enoent
      | Some st \<Rightarrow>
          if dst \<in> set unwritable \<or> \<not> st_isFile st then Inl eacces
          else Inr (AList.update dst st s))"

definition example_mkdir :: "example_fs \<Rightarrow> path \<Rightarrow> js_error + example_fs" where
  "example_mkdir s p =
     (case map_of s p of
        None \<Rightarrow> Inr (AList.update p dir_node s)
      | Some st \<Rightarrow> if st_isDirectory st then Inr s else Inl enotdir)"

definition is_under :: "path \<Rightarrow> path \<Rightarrow> bool" where
  "is_under p q = (q = p \<or> startsWith q (p @ ''/''))"

text \<open>
  A rename within one device moves the entry and everything under it; across devices
  (\<open>same_device = False\<close>) it fails with \<^verbatim>\<open>EXDEV\<close>.
\<close>

definition example_rename :: "bool \<Rightarrow> example_fs \<Rightarrow> path \<Rightarrow> path \<Rightarrow> js_error + example_fs" where
  "example_rename same_device s src dst =
     (if \<not> same_device then Inl exdev
      else if map_of s src = None then Inl enoent
      else Inr (map (\<lambda>(q, st). if is_under src q then (dst @ drop (length src) q, st) else (q, st))
                  (filter (\<lambda>(q, st). \<not> is_under dst q) s)))"

definition example_rm :: "example_fs \<Rightarrow> path \<Rightarrow> js_error + example_fs" where
  "example_rm s p = Inr (filter (\<lambda>(q, st). \<not> is_under p q) s)"

definition example_list_archive ::
  "(path \<times> archive_record list) list \<Rightarrow> example_fs \<Rightarrow> path \<Rightarrow> bool
     \<Rightarrow> js_error + archive_record list" where
  "example_list_archive archives s archivePath isTar =
     (case map_of archives archivePath of
        None \<Rightarrow> Inl \<lparr> err_code = ''1'', err_message = ''Command failed'' \<rparr>
      | Some blocks \<Rightarrow> Inr blocks)"

definition example_ops ::
  "bool \<Rightarrow> path list \<Rightarrow> (path \<times> archive_record list) list \<Rightarrow> example_fs fs_ops" where
  "example_ops same_device unwritable archives =
     \<lparr> fs_stat = example_stat,
       fs_readdir = example_readdir,
       fs_readdir_types = example_readdir_types,
       fs_readlink = (\<lambda>s p. Inl \<lparr> err_code = ''EINVAL'', err_message = ''invalid argument'' \<rparr>),
       fs_mkdir = example_mkdir,
       fs_copyFile = example_copyFile unwritable,
       fs_rename = example_rename same_device,
       fs_rm = example_rm,
       fs_list_archive = example_list_archive archives \<rparr>"

definition file_record :: "string \<Rightarrow> archive_record" where
  "file_record p = \<lparr> Path = Some p, Attributes = Some ''A'', Size = Some ''12'', Modified = None \<rparr>"

text \<open>
  The scenario of the specification: \<^verbatim>\<open>/archive.zip\<close> is a regular file whose listing has
  the records \<^verbatim>\<open>subdir/a.txt\<close> and \<^verbatim>\<open>subdir/nested/b.txt\<close>.
\<close>

definition scenario_fs :: example_fs where
  "scenario_fs = [(''/'', dir_node), (''/archive.zip'', file_node 100)]"

definition scenario_ops :: "example_fs fs_ops" where
  "scenario_ops =
     example_ops False []
       [(''/archive.zip'', [file_record ''subdir/a.txt'', file_record ''subdir/nested/b.txt''])]"

text \<open>A path of twenty-one missing segments, on a filesystem with no entry at all.\<close>

definition deep_path :: path where
  "deep_path = concat (replicate 21 ''/x'')"

text \<open>A root directory with two directories and two files.\<close>

definition listing_fs :: example_fs where
  "listing_fs =
     [(''/'', dir_node), (''/d'', dir_node), (''/b.txt'', file_node 5), (''/A.txt'', file_node 7),
      (''/C'', dir_node)]"

text \<open>
  A filesystem with a directory \<^verbatim>\<open>/a\<close> of two files, a file \<^verbatim>\<open>/b\<close> and an empty target
  directory \<^verbatim>\<open>/x\<close>; the batch moves or copies \<^verbatim>\<open>/a\<close> and \<^verbatim>\<open>/b\<close> into \<^verbatim>\<open>/x\<close>. In
  \<open>failing_ops\<close> renames cross a device boundary and \<^verbatim>\<open>/x/a/g\<close> cannot be written.
\<close>

definition xfer_fs :: example_fs where
  "xfer_fs =
     [(''/'', dir_node), (''/a'', dir_node), (''/a/f'', file_node 30), (''/a/g'', file_node 10),
      (''/b'', file_node 60), (''/x'', dir_node)]"

definition xfer_items :: "transfer_item list" where
  "xfer_items = [\<lparr>source = ''/a'', dest = ''/x/a''\<rparr>, \<lparr>source = ''/b'', dest = ''/x/b''\<rparr>]"

definition failing_ops :: "example_fs fs_ops" where
  "failing_ops = example_ops False [''/x/a/g''] []"

definition cross_device_ops :: "example_fs fs_ops" where
  "cross_device_ops = example_ops False [] []"

definition same_device_ops :: "example_fs fs_ops" where
  "same_device_ops = example_ops True [] []"

section \<open>Properties of the cache\<close>

lemma map_set_keys:
  "set (map fst (map_set m k v)) = insert k (set (map fst m))"
proof (induction m)
  case Nil
  then show ?case by simp
next
  case (Cons kv m)
  then show ?case by (cases kv) (simp add: insert_commute)
qed

lemma map_set_keys_distinct:
  "distinct (map fst m) \<Longrightarrow> distinct (map fst (map_set m k v))"
proof (induction m)
  case Nil
  then show ?case by simp
next
  case (Cons kv m)
  obtain k' v' where kv: "kv = (k', v')" by (cases kv)
  show ?case
  proof (cases "k' = k")
    case True
    with Cons.prems kv show ?thesis by simp
  next
    case False
    have "k' \<notin> set (map fst (map_set m k v))"
      using Cons.prems kv False unfolding map_set_keys by simp
    with Cons kv False show ?thesis by simp
  qed
qed

lemma map_delete_notin:
  "k \<notin> set (map fst m) \<Longrightarrow> map_delete m k = m"
  by (induction m) (auto simp: map_delete_def)

lemma delete_keys_prefix:
  "distinct (map fst (pre @ rest)) \<Longrightarrow> delete_keys (pre @ rest) (map fst pre) = rest"
proof (induction pre)
  case Nil
  then show ?case by simp
next
  case (Cons kv pre)
  have "map_delete ((kv # pre) @ rest) (fst kv) = map_delete (pre @ rest) (fst kv)"
    by (simp add: map_delete_def)
  also have "\<dots> = pre @ rest"
    using Cons.prems by (intro map_delete_notin) auto
  finally show ?case using Cons by simp
qed

text \<open>
  Claim C8. A cache holding more than its ceiling \<open>N\<close> is trimmed to exactly \<open>N\<close>
  entries, and the entries removed are the oldest-inserted ones: what remains is the
  cache without its first \<open>size - N\<close> entries, in the same order. A cache of \<open>N + 1\<close>
  entries loses exactly its single oldest entry. A cache within the ceiling is left as
  it is.
\<close>

theorem trimCache_evicts_oldest:
  assumes "distinct (map_keys cache)"
  shows "trimCache cache n = drop (map_size cache - n) cache
       \<and> (n < map_size cache \<longrightarrow> map_size (trimCache cache n) = n)
       \<and> (map_size cache = Suc n \<longrightarrow> trimCache cache n = tl cache)"
proof -
  let ?k = "map_size cache - n"
  have "delete_keys (take ?k cache @ drop ?k cache) (map fst (take ?k cache)) = drop ?k cache"
    using assms by (intro delete_keys_prefix) (simp add: map_keys_def)
  then have "delete_keys cache (take ?k (map_keys cache)) = drop ?k cache"
    by (simp add: map_keys_def take_map)
  then have eq: "trimCache cache n = drop (map_size cache - n) cache"
    by (simp add: trimCache_def Let_def map_size_def)
  then show ?thesis
    by (simp add: map_size_def drop_Suc)
qed

theorem trimCache_evicts_oldest_witness:
  "distinct (map_keys [(''a'', 1::nat), (''b'', 2), (''c'', 3)])
   \<and> trimCache [(''a'', 1::nat), (''b'', 2), (''c'', 3)] 2 = [(''b'', 2), (''c'', 3)]
   \<and> map_size (trimCache [(''a'', 1::nat), (''b'', 2), (''c'', 3)] 2) = 2"
  using trimCache_evicts_oldest [of "[(''a'', 1::nat), (''b'', 2), (''c'', 3)]" 2]
  by (simp add: map_keys_def map_size_def)

section \<open>Properties of directory listing\<close>



lemma js_split_nonempty: "js_split sep str \<noteq> []"
  by (induction str) (auto split: list.splits)

lemma archive_loop_row:
  "archive_loop lib fp I (r # rs) seen acc =
     (case record_row I r of
        None \<Rightarrow> archive_loop lib fp I rs seen acc
      | Some row \<Rightarrow>
          (case fst row of
             [] \<Rightarrow> archive_loop lib fp I rs seen acc
           | child # rest \<Rightarrow>
               if child \<in> seen then archive_loop lib fp I rs seen acc
               else archive_loop lib fp I rs (insert child seen)
                      (acc @ [archive_item lib fp (snd row) child rest])))"
proof (cases "Path r")
  case None
  then show ?thesis by (simp add: record_row_def)
next
  case (Some p)
  show ?thesis
  proof (cases "relative_to I (replace_backslashes p)")
    case None
    then show ?thesis using Some
      by (auto simp: record_row_def relative_to_def startsWith_def slice_from_def
            replace_backslashes_def Let_def split: if_splits)
  next
    case (Some rel)
    then show ?thesis using \<open>Path r = Some p\<close>
      by (auto simp: record_row_def relative_to_def startsWith_def slice_from_def
            replace_backslashes_def Let_def split: if_splits list.splits)
  qed
qed

lemma archive_item_fields:
  "name (archive_item lib fp r child rest) = child"
  "isDirectory (archive_item lib fp r child rest) = child_is_directory (child # rest, r)"
  "isFile (archive_item lib fp r child rest) = (\<not> child_is_directory (child # rest, r))"
  by (auto simp: archive_item_def child_is_directory_def Let_def)

lemma descendant_rows_Cons:
  "descendant_rows I (r # rs) =
     (case record_row I r of None \<Rightarrow> descendant_rows I rs | Some row \<Rightarrow> row # descendant_rows I rs)"
  by (simp add: descendant_rows_def List.map_filter_simps split: option.splits)

lemma record_row_parts: "record_row I r = Some row \<Longrightarrow> fst row \<noteq> [] \<and> snd row = r"
  by (auto simp: record_row_def js_split_nonempty split: option.splits)


lemma archive_loop_inv:
  "\<exists>new. archive_loop lib fp I rs seen acc = acc @ new
     \<and> distinct (map name new)
     \<and> set (map name new) = child_name ` set (descendant_rows I rs) - seen
     \<and> (\<forall>e\<in>set new. \<exists>row. find (\<lambda>row. child_name row = name e) (descendant_rows I rs) = Some row
            \<and> isDirectory e = child_is_directory row \<and> isFile e = (\<not> child_is_directory row))"
proof (induction rs arbitrary: seen acc)
  case Nil
  show ?case by (simp add: descendant_rows_def List.map_filter_simps)
next
  case (Cons r rs)
  show ?case
  proof (cases "record_row I r")
    case None
    with Cons.IH [of seen acc] show ?thesis
      by (simp add: archive_loop_row descendant_rows_Cons del: archive_loop.simps)
  next
    case (Some row)
    from record_row_parts [OF Some] obtain child rest where
      row: "row = (child # rest, r)" by (cases row; cases "fst row") auto
    have cn: "child_name row = child" "child_name (child # rest, r) = child"
      by (simp_all add: row child_name_def)
    show ?thesis
    proof (cases "child \<in> seen")
      case True
      from Cons.IH [of seen acc] obtain new where
        new: "archive_loop lib fp I rs seen acc = acc @ new" "distinct (map name new)"
          "set (map name new) = child_name ` set (descendant_rows I rs) - seen"
          "\<forall>e\<in>set new. \<exists>row. find (\<lambda>row. child_name row = name e) (descendant_rows I rs) = Some row
            \<and> isDirectory e = child_is_directory row \<and> isFile e = (\<not> child_is_directory row)"
        by blast
      have "\<forall>e\<in>set new. name e \<noteq> child" using new(3) True by force
      with new True Some show ?thesis
        by (intro exI [of _ new])
           (auto simp: archive_loop_row descendant_rows_Cons row cn simp del: archive_loop.simps)
    next
      case False
      let ?item = "archive_item lib fp r child rest"
      from Cons.IH [of "insert child seen" "acc @ [?item]"] obtain new where
        new: "archive_loop lib fp I rs (insert child seen) (acc @ [?item]) = (acc @ [?item]) @ new"
          "distinct (map name new)"
          "set (map name new) = child_name ` set (descendant_rows I rs) - insert child seen"
          "\<forall>e\<in>set new. \<exists>row. find (\<lambda>row. child_name row = name e) (descendant_rows I rs) = Some row
            \<and> isDirectory e = child_is_directory row \<and> isFile e = (\<not> child_is_directory row)"
        by blast
      have ne: "\<forall>e\<in>set new. name e \<noteq> child" using new(3) by force
      have "archive_loop lib fp I (r # rs) seen acc = acc @ (?item # new)"
        using new(1) False Some by (simp add: archive_loop_row row del: archive_loop.simps)
      moreover have "distinct (map name (?item # new))"
        using new(2) ne by (auto simp: archive_item_fields)
      moreover have "set (map name (?item # new)) = child_name ` set (descendant_rows I (r # rs)) - seen"
        using new(3) False Some by (auto simp: archive_item_fields descendant_rows_Cons cn)
      moreover have "\<forall>e\<in>set (?item # new). \<exists>row'. find (\<lambda>row. child_name row = name e) (descendant_rows I (r # rs)) = Some row'
            \<and> isDirectory e = child_is_directory row' \<and> isFile e = (\<not> child_is_directory row')"
        using new(4) ne Some by (auto simp: archive_item_fields descendant_rows_Cons cn row)
      ultimately show ?thesis by blast
    qed
  qed
qed



lemma ascended_funpow: "ascended lib p k = (ascend lib ^^ k) (p, [])"
  by (induction k) simp_all

lemma ascend_funpow_shift: "(ascend lib ^^ Suc k) ai = (ascend lib ^^ k) (ascend lib ai)"
  by (simp add: funpow_swap1)

lemma walk_up_ascends:
  "d + k \<le> 20 \<Longrightarrow>
   \<forall>j < k. stat_kind_of ops s (fst ((ascend lib ^^ j) (a, i))) = StatFailed
          \<and> path_dirname lib (fst ((ascend lib ^^ j) (a, i))) \<noteq> fst ((ascend lib ^^ j) (a, i)) \<Longrightarrow>
   walk_up lib ops s d a i =
     walk_up lib ops s (d + k) (fst ((ascend lib ^^ k) (a, i))) (snd ((ascend lib ^^ k) (a, i)))"
proof (induction k arbitrary: d a i)
  case 0
  show ?case by simp
next
  case (Suc k)
  from Suc.prems(2) have first: "stat_kind_of ops s a = StatFailed" "path_dirname lib a \<noteq> a"
    by force+
  have rest: "\<forall>j < k. stat_kind_of ops s (fst ((ascend lib ^^ j) (ascend lib (a, i)))) = StatFailed
          \<and> path_dirname lib (fst ((ascend lib ^^ j) (ascend lib (a, i))))
              \<noteq> fst ((ascend lib ^^ j) (ascend lib (a, i)))"
  proof (intro allI impI)
    fix j assume "j < k"
    then have "Suc j < Suc k" by simp
    with Suc.prems(2) show "stat_kind_of ops s (fst ((ascend lib ^^ j) (ascend lib (a, i)))) = StatFailed
          \<and> path_dirname lib (fst ((ascend lib ^^ j) (ascend lib (a, i))))
              \<noteq> fst ((ascend lib ^^ j) (ascend lib (a, i)))"
      unfolding ascend_funpow_shift [symmetric] by blast
  qed
  obtain a' i' where step: "ascend lib (a, i) = (a', i')" by (cases "ascend lib (a, i)")
  have "walk_up lib ops s d a i = walk_up lib ops s (d + 1) a' i'"
    using first Suc.prems(1) step
    by (subst walk_up.simps) (auto simp: ascend_def Let_def)
  also have "\<dots> = walk_up lib ops s (d + 1 + k) (fst ((ascend lib ^^ k) (a', i')))
                       (snd ((ascend lib ^^ k) (a', i')))"
    using Suc.prems(1) rest unfolding step by (intro Suc.IH) auto
  finally show ?case
    by (simp add: funpow_swap1 step)
qed

lemma walk_up_Found:
  "walk_up lib ops s d a i = Found a' i' \<Longrightarrow>
   \<exists>k. d + k < 20 \<and> (a', i') = (ascend lib ^^ k) (a, i) \<and> stat_kind_of ops s a' = IsFile"
proof (induction lib ops s d a i rule: walk_up.induct)
  case (1 lib ops s depth archivePath internalPath)
  show ?case
  proof (cases "depth < 20")
    case False
    with "1.prems" show ?thesis by (subst (asm) walk_up.simps) simp
  next
    case True
    note lt = this
    show ?thesis
    proof (cases "stat_kind_of ops s archivePath")
      case IsFile
      with "1.prems" lt have "a' = archivePath" "i' = internalPath"
        by (subst (asm) walk_up.simps, simp)+
      with lt IsFile show ?thesis by (intro exI [of _ 0]) simp
    next
      case IsDirectory
      with "1.prems" lt show ?thesis by (subst (asm) walk_up.simps) simp
    next
      case IsOther
      with "1.prems" lt have "walk_up lib ops s (depth + 1) archivePath internalPath = Found a' i'"
        by (subst (asm) walk_up.simps) simp
      from "1.IH"(1) [OF lt IsOther this] obtain k where
        "depth + 1 + k < 20" "(a', i') = (ascend lib ^^ k) (archivePath, internalPath)"
        "stat_kind_of ops s a' = IsFile" by blast
      then show ?thesis by (intro exI [of _ k]) simp
    next
      case StatFailed
      let ?parent = "path_dirname lib archivePath"
      let ?base = "path_basename lib archivePath"
      let ?internal = "if internalPath \<noteq> [] then path_join lib ?base internalPath else ?base"
      have ne: "?parent \<noteq> archivePath"
        using "1.prems" lt StatFailed by (subst (asm) walk_up.simps) (auto simp: Let_def)
      then have "walk_up lib ops s (depth + 1) ?parent ?internal = Found a' i'"
        using "1.prems" lt StatFailed by (subst (asm) walk_up.simps) (simp add: Let_def)
      from "1.IH"(2) [OF lt StatFailed refl ne refl refl this] obtain k where
        k: "depth + 1 + k < 20" "(a', i') = (ascend lib ^^ k) (?parent, ?internal)"
        "stat_kind_of ops s a' = IsFile" by blast
      have "(ascend lib ^^ k) (?parent, ?internal) = (ascend lib ^^ Suc k) (archivePath, internalPath)"
        unfolding ascend_funpow_shift by (simp add: ascend_def)
      with k show ?thesis by (intro exI [of _ "Suc k"]) simp
    qed
  qed
qed


lemma mset_insert_sorted: "mset (insert_sorted cmp x ys) = add_mset x (mset ys)"
  by (induction ys) auto

lemma mset_array_sort: "mset (array_sort cmp xs) = mset xs"
  by (induction xs) (simp_all add: array_sort_def mset_insert_sorted)

lemma set_array_sort: "set (array_sort cmp xs) = set xs"
  using mset_array_sort [of cmp xs] by (metis set_mset_mset)

lemma distinct_map_array_sort: "distinct (map f (array_sort cmp xs)) = distinct (map f xs)"
proof -
  have "mset (map f (array_sort cmp xs)) = mset (map f xs)"
    by (simp add: mset_array_sort)
  then show ?thesis by (rule mset_eq_imp_distinct_iff)
qed

lemma sorted_insert_sorted:
  assumes total: "\<And>a b. cmp a b \<le> 0 \<or> cmp b a \<le> 0"
    and trans: "\<And>a b c. cmp a b \<le> 0 \<Longrightarrow> cmp b c \<le> 0 \<Longrightarrow> cmp a c \<le> 0"
  shows "sorted_wrt (\<lambda>a b. cmp a b \<le> 0) ys \<Longrightarrow> sorted_wrt (\<lambda>a b. cmp a b \<le> (0::int)) (insert_sorted cmp x ys)"
proof (induction ys)
  case Nil
  show ?case by simp
next
  case (Cons y ys)
  show ?case
  proof (cases "cmp x y \<le> 0")
    case True
    have "\<forall>z\<in>set ys. cmp x z \<le> 0"
      using Cons.prems True trans by auto
    with True Cons.prems show ?thesis by simp
  next
    case False
    then have yx: "cmp y x \<le> 0" using total [of x y] by simp
    have "set (insert_sorted cmp x ys) = insert x (set ys)"
      using mset_insert_sorted [of cmp x ys] by (metis set_mset_mset set_mset_add_mset_insert)
    with False yx Cons show ?thesis by auto
  qed
qed

lemma sorted_array_sort:
  assumes "\<And>a b. cmp a b \<le> 0 \<or> cmp b a \<le> 0"
    and "\<And>a b c. cmp a b \<le> 0 \<Longrightarrow> cmp b c \<le> 0 \<Longrightarrow> cmp a c \<le> 0"
  shows "sorted_wrt (\<lambda>a b. cmp a b \<le> (0::int)) (array_sort cmp xs)"
proof (induction xs)
  case Nil
  show ?case by (simp add: array_sort_def)
next
  case (Cons x xs)
  have "array_sort cmp (x # xs) = insert_sorted cmp x (array_sort cmp xs)"
    by (simp add: array_sort_def)
  with Cons sorted_insert_sorted [of cmp, OF assms] show ?case by simp
qed

lemma compare_entries_le:
  "compare_entries lib a b \<le> 0 \<longleftrightarrow>
     (isDirectory a \<and> \<not> isDirectory b)
     \<or> (isDirectory a = isDirectory b \<and> collation_key lib (name a) \<le> collation_key lib (name b))"
  by (auto simp: compare_entries_def localeCompare_def)

lemma sorted_contents:
  fixes lib :: "'k::linorder jslib"
  shows "sorted_wrt (\<lambda>a b. compare_entries lib a b \<le> 0) (array_sort (compare_entries lib) xs)"
proof (rule sorted_array_sort)
  fix a b :: dir_entry
  show "compare_entries lib a b \<le> 0 \<or> compare_entries lib b a \<le> 0"
    unfolding compare_entries_le by auto
next
  fix a b c :: dir_entry
  assume "compare_entries lib a b \<le> 0" "compare_entries lib b c \<le> 0"
  then show "compare_entries lib a c \<le> 0"
    unfolding compare_entries_le by auto
qed

lemma dir_item_name: "name (dir_item lib ops s dirPath item) = d_name item"
  by (simp add: dir_item_def Let_def)

lemma archive_loop_distinct: "distinct (map name (archive_loop lib fp I rs {} []))"
  using archive_loop_inv [of lib fp I rs "{}" "[]"] by auto


text \<open>
  Claim C7. Every successful listing, of a real directory or of an archive, has
  pairwise-distinct names (for a real directory: when \<^verbatim>\<open>readdir\<close> reports each child once),
  no file before a directory, and within the directories and within the files the
  names in the order of their collation keys (the case-insensitive comparison of
  \<^verbatim>\<open>localeCompare\<close> with base sensitivity).
\<close>

theorem listing_sorted_distinct:
  fixes lib :: "'k::linorder jslib"
  assumes "get_directory_contents lib ops s dirPath = Success cs p arch"
    and "\<forall>items. fs_readdir_types ops s dirPath = Inr items \<longrightarrow> distinct (map d_name items)"
  shows "distinct (map name cs)
       \<and> sorted_wrt (\<lambda>a b. isDirectory b \<longrightarrow> isDirectory a) cs
       \<and> sorted_wrt (\<lambda>a b. isDirectory a = isDirectory b
                           \<longrightarrow> collation_key lib (name a) \<le> collation_key lib (name b)) cs"
proof -
  obtain xs where cs: "cs = array_sort (compare_entries lib) xs" and d: "distinct (map name xs)"
  proof (cases "fs_readdir_types ops s dirPath")
    case (Inr items)
    with assms(1) have "cs = array_sort (compare_entries lib) (map (dir_item lib ops s dirPath) items)"
      by (auto simp: get_directory_contents_def)
    moreover have "distinct (map name (map (dir_item lib ops s dirPath) items))"
      using assms(2) Inr by (simp add: o_def dir_item_name)
    ultimately show ?thesis using that by blast
  next
    case (Inl err)
    with assms(1) have "handleArchiveBrowsing lib ops s dirPath = Success cs p arch"
      by (simp add: get_directory_contents_def split: if_splits)
    then obtain fp I blocks where "cs = array_sort (compare_entries lib) (archive_loop lib fp I blocks {} [])"
      by (auto simp: handleArchiveBrowsing_def split: walk_result.splits sum.splits)
    with archive_loop_distinct that show ?thesis by blast
  qed
  have sorted: "sorted_wrt (\<lambda>a b. compare_entries lib a b \<le> 0) cs"
    unfolding cs by (rule sorted_contents)
  have "distinct (map name cs)"
    unfolding cs using d by (simp add: distinct_map_array_sort)
  moreover have "sorted_wrt (\<lambda>a b. isDirectory b \<longrightarrow> isDirectory a) cs"
    by (rule sorted_wrt_mono_rel [OF _ sorted]) (auto simp: compare_entries_le)
  moreover have "sorted_wrt (\<lambda>a b. isDirectory a = isDirectory b
                           \<longrightarrow> collation_key lib (name a) \<le> collation_key lib (name b)) cs"
    by (rule sorted_wrt_mono_rel [OF _ sorted]) (auto simp: compare_entries_le)
  ultimately show ?thesis by blast
qed

text \<open>
  Claim C1. When the walk finds the archive \<open>A\<close> with internal path \<open>I\<close> and the tool lists
  \<open>records\<close>, the listing succeeds with one child per distinct first segment of the rows
  (the records strictly under \<open>I\<close>, by their paths relative to \<open>I\<close>): the names are
  pairwise distinct and are exactly the first segments, and each child is classified by
  the first row that has its name: a directory exactly when that row's relative path
  has more than one segment or its attributes mark a directory, a file otherwise.
\<close>

theorem archive_listing_children:
  fixes lib :: "'k::linorder jslib"
  assumes "walk_up lib ops s 0 fullPath [] = Found A I"
    and "fs_list_archive ops s A (isCompressedTar A) = Inr records"
  shows "\<exists>cs. handleArchiveBrowsing lib ops s fullPath = Success cs fullPath True
           \<and> distinct (map name cs)
           \<and> set (map name cs) = child_name ` set (descendant_rows (replace_backslashes I) records)
           \<and> (\<forall>e\<in>set cs. \<exists>row.
                 find (\<lambda>row. child_name row = name e)
                   (descendant_rows (replace_backslashes I) records) = Some row
                 \<and> isDirectory e = child_is_directory row
                 \<and> isFile e = (\<not> child_is_directory row))"
proof -
  let ?I = "replace_backslashes I"
  let ?xs = "archive_loop lib fullPath ?I records {} []"
  let ?cs = "array_sort (compare_entries lib) ?xs"
  from archive_loop_inv [of lib fullPath ?I records "{}" "[]"] have
    inv: "distinct (map name ?xs)"
      "set (map name ?xs) = child_name ` set (descendant_rows ?I records)"
      "\<forall>e\<in>set ?xs. \<exists>row. find (\<lambda>row. child_name row = name e) (descendant_rows ?I records) = Some row
            \<and> isDirectory e = child_is_directory row \<and> isFile e = (\<not> child_is_directory row)"
    by auto
  have "handleArchiveBrowsing lib ops s fullPath = Success ?cs fullPath True"
    using assms by (simp add: handleArchiveBrowsing_def)
  moreover have "distinct (map name ?cs)"
    using inv(1) by (simp add: distinct_map_array_sort)
  moreover have "set (map name ?cs) = child_name ` set (descendant_rows ?I records)"
    using inv(2) by (simp add: set_array_sort)
  moreover have "\<forall>e\<in>set ?cs. \<exists>row.
                 find (\<lambda>row. child_name row = name e) (descendant_rows ?I records) = Some row
                 \<and> isDirectory e = child_is_directory row
                 \<and> isFile e = (\<not> child_is_directory row)"
    using inv(3) by (simp add: set_array_sort)
  ultimately show ?thesis by blast
qed

text \<open>
  Claim C2. When the first \<open>k \<le> 20\<close> stats of the walk fail (each at a path that has a
  parent), the walk has ascended \<open>k\<close> times, each time stripping the last segment and
  prepending it to the internal path. If the \<open>k\<close>-th ancestor (\<open>k < 20\<close>) then stats as a
  regular file, the walk succeeds with it as the archive; if it stats as a directory, the
  result is the error \<^verbatim>\<open>"Not a directory"\<close>; if \<open>k = 20\<close>, the bound is exhausted and the
  result is \<^verbatim>\<open>"Path not found"\<close>. Any archive found is an ancestor fewer than twenty
  ascensions up that stats as a regular file. The directory handler enters the walk
  when its enumeration fails with \<^verbatim>\<open>ENOTDIR\<close> or \<^verbatim>\<open>ENOENT\<close>.
\<close>

theorem walk_up_finds_archive:
  fixes lib :: "'k::linorder jslib"
  assumes "k \<le> 20" and "ascends lib ops s fullPath k"
  shows "(k < 20 \<and> stat_kind_of ops s (fst (ascended lib fullPath k)) = IsFile
            \<longrightarrow> walk_up lib ops s 0 fullPath []
                  = Found (fst (ascended lib fullPath k)) (snd (ascended lib fullPath k)))
       \<and> (k < 20 \<and> stat_kind_of ops s (fst (ascended lib fullPath k)) = IsDirectory
            \<longrightarrow> walk_up lib ops s 0 fullPath [] = NotADirectory
                \<and> handleArchiveBrowsing lib ops s fullPath = Failure ''Not a directory'')
       \<and> (k = 20
            \<longrightarrow> walk_up lib ops s 0 fullPath [] = PathNotFound
                \<and> handleArchiveBrowsing lib ops s fullPath = Failure ''Path not found'')
       \<and> (\<forall>a i. walk_up lib ops s 0 fullPath [] = Found a i
            \<longrightarrow> (\<exists>n<20. (a, i) = ascended lib fullPath n \<and> stat_kind_of ops s a = IsFile))
       \<and> (\<forall>err. fs_readdir_types ops s fullPath = Inl err
                  \<and> (err_code err = ''ENOTDIR'' \<or> err_code err = ''ENOENT'')
            \<longrightarrow> get_directory_contents lib ops s fullPath = handleArchiveBrowsing lib ops s fullPath)"
proof -
  let ?a = "fst (ascended lib fullPath k)" and ?i = "snd (ascended lib fullPath k)"
  have chain: "\<forall>j < k. stat_kind_of ops s (fst ((ascend lib ^^ j) (fullPath, []))) = StatFailed
          \<and> path_dirname lib (fst ((ascend lib ^^ j) (fullPath, [])))
              \<noteq> fst ((ascend lib ^^ j) (fullPath, []))"
    using assms(2) by (simp add: ascends_def ascended_funpow list_all_iff)
  have walk: "walk_up lib ops s 0 fullPath [] = walk_up lib ops s k ?a ?i"
    using walk_up_ascends [of 0 k ops s lib fullPath "[]"] assms(1) chain
    by (simp add: ascended_funpow)
  have isfile: "walk_up lib ops s 0 fullPath [] = Found ?a ?i"
    if "k < 20" "stat_kind_of ops s ?a = IsFile"
    unfolding walk using that by (subst walk_up.simps) simp
  have isdir: "walk_up lib ops s 0 fullPath [] = NotADirectory"
    if "k < 20" "stat_kind_of ops s ?a = IsDirectory"
    unfolding walk using that by (subst walk_up.simps) simp
  have bound: "walk_up lib ops s 0 fullPath [] = PathNotFound" if "k = 20"
    unfolding walk using that by (subst walk_up.simps) simp
  have found: "\<exists>n<20. (a, i) = ascended lib fullPath n \<and> stat_kind_of ops s a = IsFile"
    if "walk_up lib ops s 0 fullPath [] = Found a i" for a i
    using walk_up_Found [OF that] by (auto simp: ascended_funpow)
  show ?thesis
    using isfile isdir bound found
    by (auto simp: handleArchiveBrowsing_def get_directory_contents_def)
qed


theorem walk_up_finds_archive_witness:
  "ascends example_lib scenario_ops scenario_fs ''/archive.zip/subdir/nested'' 2
   \<and> walk_up example_lib scenario_ops scenario_fs 0 ''/archive.zip/subdir/nested'' []
       = Found ''/archive.zip'' ''subdir/nested''
   \<and> ascends example_lib scenario_ops scenario_fs ''/missing/x'' 2
   \<and> handleArchiveBrowsing example_lib scenario_ops scenario_fs ''/missing/x''
       = Failure ''Not a directory''
   \<and> ascends example_lib scenario_ops [] deep_path 20
   \<and> handleArchiveBrowsing example_lib scenario_ops [] deep_path = Failure ''Path not found''"
proof -
  have a1: "ascends example_lib scenario_ops scenario_fs ''/archive.zip/subdir/nested'' 2"
    by code_simp
  have f1: "stat_kind_of scenario_ops scenario_fs
              (fst (ascended example_lib ''/archive.zip/subdir/nested'' 2)) = IsFile"
    by code_simp
  have p1: "ascended example_lib ''/archive.zip/subdir/nested'' 2 = (''/archive.zip'', ''subdir/nested'')"
    by code_simp
  have a2: "ascends example_lib scenario_ops scenario_fs ''/missing/x'' 2"
    by code_simp
  have f2: "stat_kind_of scenario_ops scenario_fs (fst (ascended example_lib ''/missing/x'' 2)) = IsDirectory"
    by code_simp
  have a3: "ascends example_lib scenario_ops [] deep_path 20"
    by code_simp
  from walk_up_finds_archive [of 2 example_lib scenario_ops scenario_fs, OF _ a1] f1 p1
  have "walk_up example_lib scenario_ops scenario_fs 0 ''/archive.zip/subdir/nested'' []
       = Found ''/archive.zip'' ''subdir/nested''"
    by simp
  moreover from walk_up_finds_archive [of 2 example_lib scenario_ops scenario_fs, OF _ a2] f2
  have "handleArchiveBrowsing example_lib scenario_ops scenario_fs ''/missing/x''
       = Failure ''Not a directory''"
    by simp
  moreover from walk_up_finds_archive [of 20 example_lib scenario_ops "[]", OF _ a3]
  have "handleArchiveBrowsing example_lib scenario_ops [] deep_path = Failure ''Path not found''"
    by simp
  ultimately show ?thesis using a1 a2 a3 by simp
qed

theorem archive_listing_children_witness:
  "(\<exists>cs. handleArchiveBrowsing example_lib scenario_ops scenario_fs ''/archive.zip/subdir''
            = Success cs ''/archive.zip/subdir'' True
          \<and> distinct (map name cs) \<and> set (map name cs) = {''a.txt'', ''nested''})
   \<and> map (\<lambda>e. (name e, isDirectory e, isFile e))
         (listing_contents (handleArchiveBrowsing example_lib scenario_ops scenario_fs ''/archive.zip/subdir''))
       = [(''nested'', True, False), (''a.txt'', False, True)]"
proof -
  have w: "walk_up example_lib scenario_ops scenario_fs 0 ''/archive.zip/subdir'' []
             = Found ''/archive.zip'' ''subdir''"
    by code_simp
  have l: "fs_list_archive scenario_ops scenario_fs ''/archive.zip'' (isCompressedTar ''/archive.zip'')
             = Inr [file_record ''subdir/a.txt'', file_record ''subdir/nested/b.txt'']"
    by code_simp
  have rows: "child_name ` set (descendant_rows (replace_backslashes ''subdir'')
                 [file_record ''subdir/a.txt'', file_record ''subdir/nested/b.txt''])
              = {''a.txt'', ''nested''}"
    by code_simp
  have full: "map (\<lambda>e. (name e, isDirectory e, isFile e))
         (listing_contents (handleArchiveBrowsing example_lib scenario_ops scenario_fs ''/archive.zip/subdir''))
       = [(''nested'', True, False), (''a.txt'', False, True)]"
    by code_simp
  from archive_listing_children [OF w l] rows full show ?thesis
    by auto
qed


theorem listing_sorted_distinct_witness:
  "map name (listing_contents (get_directory_contents example_lib scenario_ops listing_fs ''/''))
     = [''C'', ''d'', ''A.txt'', ''b.txt'']
   \<and> distinct (map name (listing_contents
         (get_directory_contents example_lib scenario_ops listing_fs ''/'')))
   \<and> sorted_wrt (\<lambda>a b. isDirectory b \<longrightarrow> isDirectory a)
         (listing_contents (get_directory_contents example_lib scenario_ops listing_fs ''/''))
   \<and> sorted_wrt (\<lambda>a b. isDirectory a = isDirectory b
                         \<longrightarrow> map ascii_lower (name a) \<le> map ascii_lower (name b))
         (listing_contents (get_directory_contents example_lib scenario_ops listing_fs ''/''))"
proof -
  let ?cs = "listing_contents (get_directory_contents example_lib scenario_ops listing_fs ''/'')"
  have cs: "get_directory_contents example_lib scenario_ops listing_fs ''/'' = Success ?cs ''/'' False"
    by code_simp
  have names: "map name ?cs = [''C'', ''d'', ''A.txt'', ''b.txt'']"
    by code_simp
  have items: "map d_name (projr (fs_readdir_types scenario_ops listing_fs ''/''))
                 = [''d'', ''b.txt'', ''A.txt'', ''C'']"
    by code_simp
  have d: "\<forall>items. fs_readdir_types scenario_ops listing_fs ''/'' = Inr items
             \<longrightarrow> distinct (map d_name items)"
    using items by auto
  have key: "collation_key example_lib = map ascii_lower"
    by (simp add: example_lib_def)
  note inst = listing_sorted_distinct [OF cs d, unfolded key]
  show ?thesis
    using names inst by (intro conjI) blast+
qed



section \<open>Properties of the size scheduler\<close>

lemma fresh_queue_irrelevant [simp]:
  "fresh (st\<lparr>folderSizeQueue := q\<rparr>) p = fresh st p"
  by (simp add: fresh_def currentMtime_def split: option.splits)

lemma drain_stop:
  "\<not> (folderSizeActive st < FOLDER_SIZE_CONCURRENCY \<and> folderSizeQueue st \<noteq> []) \<Longrightarrow>
   drainFolderSizeQueue st = st"
  by (subst drainFolderSizeQueue.simps) auto


lemma drain_unfold:
  assumes "folderSizeActive st < FOLDER_SIZE_CONCURRENCY" "folderSizeQueue st \<noteq> []"
  shows "\<exists>st2. drainFolderSizeQueue st = drainFolderSizeQueue st2
              \<and> folderSizeQueue st2 = tl (folderSizeQueue st)
              \<and> set (running st) \<subseteq> set (running st2)"
proof -
  let ?p = "hd (folderSizeQueue st)"
  let ?st1 = "st\<lparr>folderSizeQueue := tl (folderSizeQueue st)\<rparr>"
  let ?started = "?st1\<lparr>folderSizeActive := folderSizeActive ?st1 + 1,
                            running := running ?st1 @ [?p],
                            folderSizeInFlight := insert ?p (folderSizeInFlight ?st1)\<rparr>"
  have eq: "drainFolderSizeQueue st =
      (if ?p = [] then drainFolderSizeQueue ?st1
       else (case fresh ?st1 ?p of
               Some cached \<Rightarrow>
                 drainFolderSizeQueue (updateFolderSizeCell ?st1 ?p (Some (csize cached)))
             | None \<Rightarrow>
                 if ?p \<in> folderSizeInFlight ?st1 then drainFolderSizeQueue ?st1
                 else drainFolderSizeQueue ?started))"
    using assms by (subst drainFolderSizeQueue.simps) (simp add: Let_def)
  consider (skip) "drainFolderSizeQueue st = drainFolderSizeQueue ?st1"
    | (cached) c where "drainFolderSizeQueue st
                          = drainFolderSizeQueue
                              (updateFolderSizeCell ?st1 ?p (Some (csize (c::cache_entry))))"
    | (start) "drainFolderSizeQueue st = drainFolderSizeQueue ?started"
  proof (cases "?p = []")
    case True
    with eq skip show ?thesis by simp
  next
    case False
    show ?thesis
    proof (cases "fresh ?st1 ?p")
      case (Some c)
      with eq False cached [of c] show ?thesis by simp
    next
      case None
      with eq False skip start show ?thesis by (cases "?p \<in> folderSizeInFlight ?st1") simp_all
    qed
  qed
  then show ?thesis
  proof cases
    case skip
    then show ?thesis by (intro exI [of _ ?st1]) simp
  next
    case (cached c)
    then show ?thesis
      by (intro exI [of _ "updateFolderSizeCell ?st1 ?p (Some (csize c))"])
         (simp add: updateFolderSizeCell_def)
  next
    case start
    then show ?thesis by (intro exI [of _ ?started]) auto
  qed
qed



lemma drain_running_mono:
  "set (running st) \<subseteq> set (running (drainFolderSizeQueue st))"
proof (induction "length (folderSizeQueue st)" arbitrary: st rule: less_induct)
  case less
  show ?case
  proof (cases "folderSizeActive st < FOLDER_SIZE_CONCURRENCY \<and> folderSizeQueue st \<noteq> []")
    case False
    then show ?thesis by (simp add: drain_stop)
  next
    case True
    with drain_unfold [of st] obtain st2 where
      st2: "drainFolderSizeQueue st = drainFolderSizeQueue st2"
        "folderSizeQueue st2 = tl (folderSizeQueue st)"
        "set (running st) \<subseteq> set (running st2)" by blast
    with True have "length (folderSizeQueue st2) < length (folderSizeQueue st)"
      by (cases "folderSizeQueue st") auto
    with less [of st2] st2 show ?thesis by auto
  qed
qed














text \<open>
  Claim C9, as amended. In both lookups of the scheduler a cached entry is used exactly
  when its stored modification time equals the directory's current one (\<open>0\<close> when the
  directory is not among the current items or carries no modification time). A fresh
  entry only writes the size cell: nothing is queued or started. Without a fresh entry
  the path is queued (and the queue drained) unless its computation is in flight; at the
  head of the queue, with a free slot, its computation is started. No age or
  time-to-live enters the lookup.
\<close>

theorem cache_hit_by_mtime:
  "(fresh st p = Some c \<longleftrightarrow>
      map_get (folderSizeCache st) p = Some c \<and> mtime c = currentMtime st p)
   \<and> (p \<noteq> [] \<and> fresh st p = Some c \<longrightarrow>
        schedule_row st p = updateFolderSizeCell st p (Some (csize c))
        \<and> running (schedule_row st p) = running st
        \<and> folderSizeQueue (schedule_row st p) = folderSizeQueue st)
   \<and> (p \<noteq> [] \<and> fresh st p = None \<and> p \<notin> folderSizeInFlight st \<longrightarrow>
        schedule_row st p = enqueueFolderSize st p)
   \<and> (p \<noteq> [] \<and> fresh st p = None \<and> p \<in> folderSizeInFlight st \<longrightarrow> schedule_row st p = st)
   \<and> (folderSizeActive st < FOLDER_SIZE_CONCURRENCY \<and> folderSizeQueue st = p # q \<and> p \<noteq> []
        \<and> fresh st p = Some c \<longrightarrow>
        drainFolderSizeQueue st
          = drainFolderSizeQueue
              (updateFolderSizeCell (st\<lparr>folderSizeQueue := q\<rparr>) p (Some (csize c))))
   \<and> (folderSizeActive st < FOLDER_SIZE_CONCURRENCY \<and> folderSizeQueue st = p # q \<and> p \<noteq> []
        \<and> fresh st p = None \<and> p \<notin> folderSizeInFlight st \<longrightarrow>
        p \<in> set (running (drainFolderSizeQueue st)))"
proof -
  have hit: "fresh st p = Some c \<longleftrightarrow>
      map_get (folderSizeCache st) p = Some c \<and> mtime c = currentMtime st p"
    by (auto simp: fresh_def split: option.splits)
  have row_hit: "schedule_row st p = updateFolderSizeCell st p (Some (csize c))
        \<and> running (schedule_row st p) = running st
        \<and> folderSizeQueue (schedule_row st p) = folderSizeQueue st"
    if "p \<noteq> []" "fresh st p = Some c"
    using that by (simp add: schedule_row_def updateFolderSizeCell_def)
  have row_miss: "schedule_row st p = enqueueFolderSize st p"
    if "p \<noteq> []" "fresh st p = None" "p \<notin> folderSizeInFlight st"
    using that by (simp add: schedule_row_def)
  have row_busy: "schedule_row st p = st"
    if "p \<noteq> []" "fresh st p = None" "p \<in> folderSizeInFlight st"
    using that by (simp add: schedule_row_def)
  have drain_hit: "drainFolderSizeQueue st
          = drainFolderSizeQueue
              (updateFolderSizeCell (st\<lparr>folderSizeQueue := q\<rparr>) p (Some (csize c)))"
    if "folderSizeActive st < FOLDER_SIZE_CONCURRENCY" "folderSizeQueue st = p # q" "p \<noteq> []"
      "fresh st p = Some c"
    using that by (subst drainFolderSizeQueue.simps) (simp add: Let_def)
  have drain_miss: "p \<in> set (running (drainFolderSizeQueue st))"
    if "folderSizeActive st < FOLDER_SIZE_CONCURRENCY" "folderSizeQueue st = p # q" "p \<noteq> []"
      "fresh st p = None" "p \<notin> folderSizeInFlight st"
  proof -
    let ?started = "st\<lparr>folderSizeQueue := q,
                        folderSizeActive := folderSizeActive st + 1,
                        running := running st @ [p],
                        folderSizeInFlight := insert p (folderSizeInFlight st)\<rparr>"
    have "drainFolderSizeQueue st = drainFolderSizeQueue ?started"
      using that by (subst drainFolderSizeQueue.simps) (simp add: Let_def)
    with drain_running_mono [of ?started] show ?thesis by simp
  qed
  from hit row_hit row_miss row_busy drain_hit drain_miss show ?thesis by blast
qed

theorem cache_hit_by_mtime_witness:
  "fresh (run_events (initial_sched [])
      [Navigated [\<lparr>item_path = ''/d'', item_modified = Some 5\<rparr>], Enqueue ''/d'',
       Settled ''/d'' (Some (10, Some 5))]) ''/d'' = Some \<lparr>csize = 10, mtime = 5\<rparr>
   \<and> running (schedule_row (run_events (initial_sched [])
      [Navigated [\<lparr>item_path = ''/d'', item_modified = Some 5\<rparr>], Enqueue ''/d'',
       Settled ''/d'' (Some (10, Some 5))]) ''/d'') = []
   \<and> fresh (run_events (initial_sched [])
      [Navigated [\<lparr>item_path = ''/d'', item_modified = Some 5\<rparr>], Enqueue ''/d'',
       Settled ''/d'' (Some (10, Some 5)),
       Navigated [\<lparr>item_path = ''/d'', item_modified = Some 6\<rparr>]]) ''/d'' = None
   \<and> running (schedule_row (run_events (initial_sched [])
      [Navigated [\<lparr>item_path = ''/d'', item_modified = Some 5\<rparr>], Enqueue ''/d'',
       Settled ''/d'' (Some (10, Some 5)),
       Navigated [\<lparr>item_path = ''/d'', item_modified = Some 6\<rparr>]]) ''/d'') = [''/d'']"
proof -
  let ?evs = "[Navigated [\<lparr>item_path = ''/d'', item_modified = Some 5\<rparr>], Enqueue ''/d'',
       Settled ''/d'' (Some (10, Some 5))]"
  let ?st = "run_events (initial_sched []) ?evs"
  let ?st' = "run_events (initial_sched [])
                (?evs @ [Navigated [\<lparr>item_path = ''/d'', item_modified = Some 6\<rparr>]])"
  have f: "fresh ?st ''/d'' = Some \<lparr>csize = 10, mtime = 5\<rparr>" by code_simp
  have r: "running ?st = []" by code_simp
  have f': "fresh ?st' ''/d'' = None" by code_simp
  have i': "''/d'' \<notin> folderSizeInFlight ?st'" by code_simp
  have e': "running (enqueueFolderSize ?st' ''/d'') = [''/d'']" by code_simp
  from cache_hit_by_mtime [of ?st "''/d''" "\<lparr>csize = 10, mtime = 5\<rparr>" "[]"]
  have "''/d'' \<noteq> [] \<and> fresh ?st ''/d'' = Some \<lparr>csize = 10, mtime = 5\<rparr>
          \<longrightarrow> running (schedule_row ?st ''/d'') = running ?st"
    by blast
  with f r have hit: "running (schedule_row ?st ''/d'') = []" by simp
  from cache_hit_by_mtime [of ?st' "''/d''" "\<lparr>csize = 10, mtime = 5\<rparr>" "[]"]
  have "''/d'' \<noteq> [] \<and> fresh ?st' ''/d'' = None \<and> ''/d'' \<notin> folderSizeInFlight ?st'
          \<longrightarrow> schedule_row ?st' ''/d'' = enqueueFolderSize ?st' ''/d''"
    by blast
  with f' i' e' have miss: "running (schedule_row ?st' ''/d'') = [''/d'']" by simp
  have "?st' = run_events (initial_sched [])
      [Navigated [\<lparr>item_path = ''/d'', item_modified = Some 5\<rparr>], Enqueue ''/d'',
       Settled ''/d'' (Some (10, Some 5)),
       Navigated [\<lparr>item_path = ''/d'', item_modified = Some 6\<rparr>]]"
    by simp
  with f f' hit miss show ?thesis by metis
qed

theorem cache_ttl_counterexample:
  "fresh (run_events (initial_sched [])
      [Navigated [\<lparr>item_path = ''/d'', item_modified = Some 5\<rparr>], Enqueue ''/d'',
       Settled ''/d'' (Some (10, Some 5))]) ''/d'' = Some \<lparr>csize = 10, mtime = 5\<rparr>
   \<and> running (step (run_events (initial_sched [])
      [Navigated [\<lparr>item_path = ''/d'', item_modified = Some 5\<rparr>], Enqueue ''/d'',
       Settled ''/d'' (Some (10, Some 5))]) (ScheduleVisible [''/d''])) = []
   \<and> folderSizeQueue (step (run_events (initial_sched [])
      [Navigated [\<lparr>item_path = ''/d'', item_modified = Some 5\<rparr>], Enqueue ''/d'',
       Settled ''/d'' (Some (10, Some 5))]) (ScheduleVisible [''/d''])) = []
   \<and> \<not> spec_cache_hit FOLDER_SIZE_CACHE_TTL_MS (FOLDER_SIZE_CACHE_TTL_MS + 1)
         \<lparr>sizeBytes = 10, sourceModifiedAt = 5, cachedAt = 0\<rparr> 5"
  by code_simp


section \<open>Properties of the batch transfer\<close>

lemma map_get_map_set:
  "map_get (map_set m k v) k' = (if k' = k then Some v else map_get m k')"
  by (induction m) (auto simp: map_get_def)

lemma item_size_update:
  "item_size (st\<lparr>totalBytes := tb, totalFiles := tf, itemSizes := map_set (itemSizes st) r v\<rparr>) r'
     = (if r' = r then v else item_size st r')"
  by (simp add: item_size_def map_get_map_set)

text \<open>The scan only adds to the totals, and credits what it adds to its root item.\<close>

lemma scan_accounting:
  "(scan lib ops fuel st p rt = Some st' \<longrightarrow>
      totalBytes st \<le> totalBytes st'
      \<and> item_size st' rt = item_size st rt + (totalBytes st' - totalBytes st)
      \<and> (\<forall>r. r \<noteq> rt \<longrightarrow> item_size st' r = item_size st r)
      \<and> fsys st' = fsys st \<and> processedBytes st' = processedBytes st
      \<and> sent st' = sent st \<and> calls st' = calls st)"
  "(scan_children lib ops fuel st p cs rt = Some st' \<longrightarrow>
      totalBytes st \<le> totalBytes st'
      \<and> item_size st' rt = item_size st rt + (totalBytes st' - totalBytes st)
      \<and> (\<forall>r. r \<noteq> rt \<longrightarrow> item_size st' r = item_size st r)
      \<and> fsys st' = fsys st \<and> processedBytes st' = processedBytes st
      \<and> sent st' = sent st \<and> calls st' = calls st)"
proof (induction lib ops fuel st p rt and lib ops fuel st p cs rt arbitrary: st' and st'
       rule: scan_scan_children.induct)
  case (1 lib ops st p rootItemPath)
  show ?case by simp
next
  case (2 lib ops fuel st p rootItemPath)
  show ?case
  proof (cases "fs_stat ops (fsys st) p")
    case (Inl e)
    then show ?thesis by auto
  next
    case (Inr stats)
    show ?thesis
    proof (cases "st_isDirectory stats")
      case False
      with Inr show ?thesis by (auto simp: item_size_update)
    next
      case True
      show ?thesis
      proof (cases "fs_readdir ops (fsys st) p")
        case (Inl e)
        with Inr True show ?thesis by auto
      next
        case (Inr children)
        with \<open>fs_stat ops (fsys st) p = Inr stats\<close> True "2.IH" [of stats children st']
        show ?thesis by simp
      qed
    qed
  qed
next
  case (3 lib ops fuel st p rootItemPath)
  show ?case by simp
next
  case (4 lib ops fuel st p c cs rootItemPath)
  show ?case
  proof (cases "scan lib ops fuel st (path_join lib p c) rootItemPath")
    case None
    then show ?thesis by simp
  next
    case (Some st1)
    from "4.IH"(1) [of st1] Some have one:
      "totalBytes st \<le> totalBytes st1"
      "item_size st1 rootItemPath = item_size st rootItemPath + (totalBytes st1 - totalBytes st)"
      "\<forall>r. r \<noteq> rootItemPath \<longrightarrow> item_size st1 r = item_size st r"
      "fsys st1 = fsys st" "processedBytes st1 = processedBytes st"
      "sent st1 = sent st" "calls st1 = calls st"
      by simp_all
    show ?thesis
    proof (intro impI)
      assume "scan_children lib ops fuel st p (c # cs) rootItemPath = Some st'"
      with Some have "scan_children lib ops fuel st1 p cs rootItemPath = Some st'" by simp
      with "4.IH"(2) [OF Some, of st'] have two:
        "totalBytes st1 \<le> totalBytes st'"
        "item_size st' rootItemPath = item_size st1 rootItemPath + (totalBytes st' - totalBytes st1)"
        "\<forall>r. r \<noteq> rootItemPath \<longrightarrow> item_size st' r = item_size st1 r"
        "fsys st' = fsys st1" "processedBytes st' = processedBytes st1"
        "sent st' = sent st1" "calls st' = calls st1"
        by simp_all
      from one two show "totalBytes st \<le> totalBytes st'
        \<and> item_size st' rootItemPath = item_size st rootItemPath + (totalBytes st' - totalBytes st)
        \<and> (\<forall>r. r \<noteq> rootItemPath \<longrightarrow> item_size st' r = item_size st r)
        \<and> fsys st' = fsys st \<and> processedBytes st' = processedBytes st
        \<and> sent st' = sent st \<and> calls st' = calls st"
        by simp
    qed
  qed
qed

lemma scan_items_start:
  "scan_items lib ops fuel st items = Some st' \<Longrightarrow>
   fsys st' = fsys st \<and> processedBytes st' = processedBytes st
   \<and> sent st' = sent st \<and> calls st' = calls st"
proof (induction items arbitrary: st)
  case Nil
  then show ?case by simp
next
  case (Cons item items)
  from Cons.prems obtain st1 where
    st1: "scan lib ops fuel st (source item) (source item) = Some st1"
      "scan_items lib ops fuel st1 items = Some st'"
    by (auto split: option.splits)
  from scan_accounting(1) [of lib ops fuel st "source item" "source item" st1] st1(1)
    Cons.IH [OF st1(2)]
  show ?case by simp
qed

lemma scan_phase_start:
  assumes "scan_phase lib ops fuel s items = Some st0"
  shows "1 \<le> totalBytes st0 \<and> fsys st0 = s \<and> processedBytes st0 = 0 \<and> sent st0 = []
         \<and> calls st0 = []"
proof -
  from assms obtain st where st: "scan_items lib ops fuel (initial_xfer s) items = Some st"
    and st0: "st0 = (if totalBytes st = 0 then st\<lparr>totalBytes := 1\<rparr> else st)"
    by (auto simp: scan_phase_def split: option.splits)
  from scan_items_start [OF st] have "fsys st = s \<and> processedBytes st = 0 \<and> sent st = []
         \<and> calls st = []"
    by (simp add: initial_xfer_def)
  with st0 show ?thesis by auto
qed

subsection \<open>Progress\<close>

lemma percent_mono:
  assumes "mono (double_of lib)" "a \<le> b"
  shows "percent lib tb a \<le> percent lib tb b"
proof -
  have "real a / real tb \<le> real b / real tb"
    using assms(2) by (intro divide_right_mono) simp_all
  then have "double_of lib (real a / real tb) \<le> double_of lib (real b / real tb)"
    using assms(1) by (rule monoD [rotated])
  then have "double_of lib (real a / real tb) * 100 \<le> double_of lib (real b / real tb) * 100"
    by simp
  then have "double_of lib (double_of lib (real a / real tb) * 100)
               \<le> double_of lib (double_of lib (real b / real tb) * 100)"
    using assms(1) by (rule monoD [rotated])
  then show ?thesis
    unfolding percent_def by (intro min.mono order_refl)
qed

lemma percent_range:
  assumes "mono (double_of lib)" "double_of lib 0 = 0"
  shows "0 \<le> percent lib tb a \<and> percent lib tb a \<le> 100"
proof -
  have "0 \<le> real a / real tb" by simp
  then have "double_of lib 0 \<le> double_of lib (real a / real tb)"
    using assms(1) by (rule monoD [rotated])
  then have "0 \<le> double_of lib (real a / real tb) * 100"
    using assms(2) by simp
  then have "double_of lib 0 \<le> double_of lib (double_of lib (real a / real tb) * 100)"
    using assms(1) by (rule monoD [rotated])
  then show ?thesis
    using assms(2) by (simp add: percent_def)
qed

lemma sorted_le_last: "sorted pbs \<Longrightarrow> x \<in> set pbs \<Longrightarrow> x \<le> last (0 # pbs)"
proof (induction pbs rule: rev_induct)
  case Nil
  then show ?case by simp
next
  case (snoc y ys)
  then show ?case by (auto simp: sorted_append)
qed

lemma progress_inv_same:
  assumes "progress_inv lib st" "sent st' = sent st" "totalBytes st' = totalBytes st"
    "processedBytes st' = processedBytes st"
  shows "progress_inv lib st'"
  using assms unfolding progress_inv_def by auto

lemma progress_inv_reported:
  assumes "progress_inv lib st" "sent st1 = sent st" "totalBytes st1 = totalBytes st"
    "processedBytes st \<le> processedBytes st1"
  shows "progress_inv lib (reportProgress lib st1)"
proof -
  from assms(1) obtain pbs where pbs: "sent st = map (percent lib (totalBytes st)) pbs"
    "sorted pbs" "processedBytes st = last (0 # pbs)"
    by (auto simp: progress_inv_def)
  let ?pbs = "pbs @ [processedBytes st1]"
  have "sent (reportProgress lib st1) = map (percent lib (totalBytes st1)) ?pbs"
    using pbs(1) assms(2,3) by (simp add: reportProgress_def)
  moreover have "sorted ?pbs"
  proof -
    have "\<forall>x\<in>set pbs. x \<le> processedBytes st1"
      using sorted_le_last [OF pbs(2)] pbs(3) assms(4) by fastforce
    with pbs(2) show ?thesis by (simp add: sorted_append)
  qed
  moreover have "processedBytes (reportProgress lib st1) = last (0 # ?pbs)"
    by (simp add: reportProgress_def)
  moreover have "totalBytes (reportProgress lib st1) = totalBytes st1"
    by (simp add: reportProgress_def)
  ultimately show ?thesis
    unfolding progress_inv_def by (intro exI [of _ ?pbs]) simp
qed

lemma keeps_refl: "keeps lib st st"
  by (simp add: keeps_def)

lemma keeps_trans: "keeps lib st st1 \<Longrightarrow> keeps lib st1 st2 \<Longrightarrow> keeps lib st st2"
  by (auto simp: keeps_def)

lemma keeps_called: "keeps lib st (called st c)"
  by (auto simp: keeps_def called_def intro: progress_inv_same)

lemma keeps_fsys: "keeps lib st (st\<lparr>fsys := s\<rparr>)"
  by (auto simp: keeps_def intro: progress_inv_same)

lemma keeps_reported:
  assumes "sent st1 = sent st" "totalBytes st1 = totalBytes st" "itemSizes st1 = itemSizes st"
    "processedBytes st \<le> processedBytes st1"
  shows "keeps lib st (reportProgress lib st1)"
  using assms progress_inv_reported [of lib st st1]
  by (simp add: keeps_def reportProgress_def)

lemma removals_called: "removals (called st c) = removals st @ (if is_removal c then [c] else [])"
  by (simp add: removals_def called_def)

lemma removals_simps [simp]:
  "removals (st\<lparr>fsys := s\<rparr>) = removals st"
  "removals (st\<lparr>processedBytes := pb\<rparr>) = removals st"
  "removals (st\<lparr>processedFiles := pf\<rparr>) = removals st"
  "removals (reportProgress lib st) = removals st"
  by (simp_all add: removals_def reportProgress_def)

text \<open>The recursive copy keeps the total and the invariant, and removes nothing.\<close>

lemma copy_keeps:
  "(copyRecursive lib ops fuel st src dst = (out, st') \<longrightarrow>
      keeps lib st st' \<and> removals st' = removals st)"
  "(copy_children lib ops fuel st src dst cs = (out, st') \<longrightarrow>
      keeps lib st st' \<and> removals st' = removals st)"
proof (induction lib ops fuel st src dst and lib ops fuel st src dst cs arbitrary: out st' and out st'
       rule: copyRecursive_copy_children.induct)
  case (1 lib ops st src dst)
  show ?case by (simp add: keeps_refl)
next
  case (2 lib ops fuel st src dst)
  let ?st0 = "called st (Stat src)"
  have k0: "keeps lib st ?st0" "removals ?st0 = removals st"
    by (simp_all add: keeps_called removals_called)
  show ?case
  proof (cases "fs_stat ops (fsys ?st0) src")
    case (Inl e)
    with k0 show ?thesis by (auto simp: Let_def)
  next
    case (Inr stats)
    show ?thesis
    proof (cases "st_isDirectory stats")
      case False
      let ?st1 = "called ?st0 (CopyFile src dst)"
      have k1: "keeps lib st ?st1" "removals ?st1 = removals st"
        using k0 keeps_called [of lib ?st0] by (auto simp: removals_called intro: keeps_trans)
      show ?thesis
      proof (cases "fs_copyFile ops (fsys ?st1) src dst")
        case (Inl e)
        with Inr False k1 show ?thesis by (auto simp: Let_def)
      next
        case copied: (Inr s')
        let ?st2 = "?st1\<lparr>fsys := s',
                         processedBytes := processedBytes ?st1 + st_size stats,
                         processedFiles := processedFiles ?st1 + 1\<rparr>"
        have "keeps lib ?st1 (reportProgress lib ?st2)" by (rule keeps_reported) simp_all
        with k1 have "keeps lib st (reportProgress lib ?st2)" "removals (reportProgress lib ?st2) = removals st"
          by (auto intro: keeps_trans)
        with Inr False copied show ?thesis by (auto simp: Let_def)
      qed
    next
      case True
      let ?st1 = "called ?st0 (Mkdir dst)"
      have k1: "keeps lib st ?st1" "removals ?st1 = removals st"
        using k0 keeps_called [of lib ?st0] by (auto simp: removals_called intro: keeps_trans)
      show ?thesis
      proof (cases "fs_mkdir ops (fsys ?st1) dst")
        case (Inl e)
        with Inr True k1 show ?thesis by (auto simp: Let_def)
      next
        case made: (Inr s')
        let ?st2 = "called (?st1\<lparr>fsys := s'\<rparr>) (Readdir src)"
        have "keeps lib ?st1 ?st2"
          using keeps_fsys [of lib ?st1 s'] keeps_called [of lib "?st1\<lparr>fsys := s'\<rparr>"]
          by (rule keeps_trans)
        with k1 have k2: "keeps lib st ?st2" "removals ?st2 = removals st"
          by (auto simp: removals_called intro: keeps_trans)
        show ?thesis
        proof (cases "fs_readdir ops (fsys ?st2) src")
          case (Inl e)
          with Inr True made k2 show ?thesis by (auto simp: Let_def)
        next
          case listed: (Inr children)
          have "copy_children lib ops fuel ?st2 src dst children = (out, st') \<longrightarrow>
                  keeps lib ?st2 st' \<and> removals st' = removals ?st2"
            using "2.IH" [OF refl Inr True refl made refl listed] .
          with k2 Inr True made listed show ?thesis
            by (auto simp: Let_def intro: keeps_trans)
        qed
      qed
    qed
  qed
next
  case (3 lib ops fuel st src dst)
  show ?case by (simp add: keeps_refl)
next
  case (4 lib ops fuel st src dst child children)
  obtain o1 st1 where first:
    "copyRecursive lib ops fuel st (path_join lib src child) (path_join lib dst child) = (o1, st1)"
    by (cases "copyRecursive lib ops fuel st (path_join lib src child) (path_join lib dst child)")
  from "4.IH"(1) [of o1 st1] first have k1: "keeps lib st st1" "removals st1 = removals st" by simp_all
  show ?case
  proof (cases o1)
    case Done
    from "4.IH"(2) [OF first [symmetric] Done, of out st']
    have "copy_children lib ops fuel st1 src dst children = (out, st') \<longrightarrow>
            keeps lib st1 st' \<and> removals st' = removals st1"
      by simp
    with k1 first Done show ?thesis by (auto intro: keeps_trans)
  next
    case (Raised e)
    with k1 first show ?thesis by auto
  next
    case OutOfFuel
    with k1 first show ?thesis by auto
  qed
qed


lemma process_item_keeps:
  assumes "process_item lib ops fuel operation st item = (out, st')"
  shows "keeps lib st st'"
proof (cases "operation = ''copy''")
  case True
  with assms copy_keeps(1) [of lib ops fuel st "source item" "dest item" out st']
  show ?thesis by (simp add: process_item_def)
next
  case False
  let ?st0 = "called st (Rename (source item) (dest item))"
  have k0: "keeps lib st ?st0" by (rule keeps_called)
  show ?thesis
  proof (cases "fs_rename ops (fsys ?st0) (source item) (dest item)")
    case (Inr s')
    let ?st1 = "?st0\<lparr>fsys := s',
                     processedBytes := processedBytes ?st0 + item_size ?st0 (source item)\<rparr>"
    have "keeps lib ?st0 (reportProgress lib ?st1)" by (rule keeps_reported) simp_all
    with k0 have "keeps lib st (reportProgress lib ?st1)" by (rule keeps_trans)
    with assms False Inr show ?thesis by (auto simp: process_item_def Let_def)
  next
    case (Inl err)
    obtain o1 st1 where copy:
      "copyRecursive lib ops fuel ?st0 (source item) (dest item) = (o1, st1)"
      by (cases "copyRecursive lib ops fuel ?st0 (source item) (dest item)")
    with copy_keeps(1) [of lib ops fuel ?st0 "source item" "dest item" o1 st1] k0
    have k1: "keeps lib st st1" by (auto intro: keeps_trans)
    have k2: "keeps lib st (called st1 (Rm (source item)))"
      using k1 keeps_called by (rule keeps_trans)
    have k3: "keeps lib st ((called st1 (Rm (source item)))\<lparr>fsys := s'\<rparr>)" for s'
      using k2 keeps_fsys by (rule keeps_trans)
    from assms False Inl copy k1 k2 k3 show ?thesis
      by (cases o1) (auto simp: process_item_def Let_def split: sum.splits)
  qed
qed

lemma process_items_keeps:
  "process_items lib ops fuel operation st items = (out, st') \<Longrightarrow> keeps lib st st'"
proof (induction items arbitrary: st)
  case Nil
  then show ?case by (simp add: keeps_refl)
next
  case (Cons item items)
  obtain o1 st1 where first: "process_item lib ops fuel operation st item = (o1, st1)"
    by (cases "process_item lib ops fuel operation st item")
  from process_item_keeps [OF first] have k1: "keeps lib st st1" .
  show ?case
  proof (cases o1)
    case Done
    with Cons.prems first have "process_items lib ops fuel operation st1 items = (out, st')"
      by simp
    from k1 Cons.IH [OF this] show ?thesis by (rule keeps_trans)
  next
    case (Raised e)
    with Cons.prems first k1 show ?thesis by simp
  next
    case OutOfFuel
    with Cons.prems first k1 show ?thesis by simp
  qed
qed

lemma process_items_append:
  "process_items lib ops fuel operation st (xs @ ys) =
     (case process_items lib ops fuel operation st xs of
        (Done, st1) \<Rightarrow> process_items lib ops fuel operation st1 ys
      | (Raised e, st1) \<Rightarrow> (Raised e, st1)
      | (OutOfFuel, st1) \<Rightarrow> (OutOfFuel, st1))"
proof (induction xs arbitrary: st)
  case Nil
  show ?case by simp
next
  case (Cons x xs)
  obtain o1 st1 where first: "process_item lib ops fuel operation st x = (o1, st1)"
    by (cases "process_item lib ops fuel operation st x")
  with Cons.IH [of st1] show ?case by (cases o1) simp_all
qed

lemma batch_result_cases:
  assumes "scan_phase lib ops fuel s items = Some st0"
  shows "batch_file_operation lib ops fuel s items operation =
     (case process_items lib ops fuel operation st0 items of
        (Done, st') \<Rightarrow> (BatchSuccess, st')
      | (Raised e, st') \<Rightarrow> (BatchFailure (err_message e), st')
      | (OutOfFuel, st') \<Rightarrow> (NoReturn, st'))"
  using assms by (simp add: batch_file_operation_def)

lemma progress_inv_sorted:
  assumes "progress_inv lib st" "mono (double_of lib)" "double_of lib 0 = 0"
  shows "sorted (sent st) \<and> list_all (\<lambda>x. 0 \<le> x \<and> x \<le> 100) (sent st)"
proof -
  from assms(1) obtain pbs where pbs: "sent st = map (percent lib (totalBytes st)) pbs"
    "sorted pbs"
    by (auto simp: progress_inv_def)
  have "sorted (map (percent lib (totalBytes st)) pbs)"
    unfolding sorted_map
    by (rule sorted_wrt_mono_rel [OF _ pbs(2)]) (rule percent_mono [OF assms(2)])
  moreover have "list_all (\<lambda>x. 0 \<le> x \<and> x \<le> 100) (map (percent lib (totalBytes st)) pbs)"
    using percent_range [OF assms(2,3)] by (simp add: list_all_iff)
  ultimately show ?thesis using pbs(1) by simp
qed

text \<open>
  Claim C4. When the scan phase returns, \<open>totalBytes\<close> is at least 1 and stays as it is
  through the execution. Each call of \<^verbatim>\<open>reportProgress\<close> sends
  \<^verbatim>\<open>Math.min(100, (processedBytes / totalBytes) * 100)\<close> of the counters as they are at
  that moment, in the arithmetic of doubles. However the execution ends (after any
  number of calls, with success, with an error or unfinished), the values sent are
  these percentages of the values \<open>processedBytes\<close> has taken, a non-decreasing sequence
  that ends with its present value. So, the rounding to doubles being monotone and
  exact at 0, the values sent lie between 0 and 100 and never decrease.
\<close>

theorem progress_bounded_and_monotone:
  assumes "scan_phase lib ops fuel s items = Some st0"
    and "batch_file_operation lib ops fuel s items operation = (res, st)"
  shows "1 \<le> totalBytes st0 \<and> totalBytes st = totalBytes st0
       \<and> (\<forall>st'. sent (reportProgress lib st')
                  = sent st' @ [min 100 (double_of lib
                                  (double_of lib (real (processedBytes st') / real (totalBytes st'))
                                   * 100))])
       \<and> (\<exists>pbs. sent st
                   = map (\<lambda>pb. min 100 (double_of lib
                                   (double_of lib (real pb / real (totalBytes st0)) * 100))) pbs
                 \<and> sorted pbs \<and> processedBytes st = last (0 # pbs)
                 \<and> list_all (\<lambda>pb. pb \<le> processedBytes st) pbs)
       \<and> (mono (double_of lib) \<and> double_of lib 0 = 0 \<longrightarrow>
            sorted (sent st) \<and> list_all (\<lambda>x. 0 \<le> x \<and> x \<le> 100) (sent st))"
proof -
  from scan_phase_start [OF assms(1)] have start: "1 \<le> totalBytes st0" "sent st0 = []"
    "processedBytes st0 = 0"
    by simp_all
  then have inv0: "progress_inv lib st0"
    unfolding progress_inv_def by (intro exI [of _ "[]"]) simp
  obtain out where run: "process_items lib ops fuel operation st0 items = (out, st)"
    using assms(2) unfolding batch_result_cases [OF assms(1)]
    by (auto split: prod.splits outcome.splits)
  from process_items_keeps [OF run] inv0
  have k: "totalBytes st = totalBytes st0" "progress_inv lib st"
    by (simp_all add: keeps_def)
  from k(2) obtain pbs where pbs: "sent st = map (percent lib (totalBytes st)) pbs" "sorted pbs"
    "processedBytes st = last (0 # pbs)"
    by (auto simp: progress_inv_def)
  have "list_all (\<lambda>pb. pb \<le> processedBytes st) pbs"
    using sorted_le_last [OF pbs(2)] pbs(3) by (simp add: list_all_iff)
  with pbs k(1)
  have formula: "\<exists>pbs. sent st
                   = map (\<lambda>pb. min 100 (double_of lib
                                   (double_of lib (real pb / real (totalBytes st0)) * 100))) pbs
                 \<and> sorted pbs \<and> processedBytes st = last (0 # pbs)
                 \<and> list_all (\<lambda>pb. pb \<le> processedBytes st) pbs"
    by (intro exI [of _ pbs]) (simp add: percent_def [abs_def])
  have report: "\<forall>st'. sent (reportProgress lib st')
                  = sent st' @ [min 100 (double_of lib
                                  (double_of lib (real (processedBytes st') / real (totalBytes st'))
                                   * 100))]"
    by (simp add: reportProgress_def percent_def)
  have bounds: "sorted (sent st) \<and> list_all (\<lambda>x. 0 \<le> x \<and> x \<le> 100) (sent st)"
    if "mono (double_of lib)" "double_of lib 0 = 0"
    using progress_inv_sorted [OF k(2) that] .
  from start(1) k(1) report formula bounds show ?thesis by blast
qed

theorem progress_bounded_and_monotone_witness:
  "1 \<le> totalBytes (the (scan_phase example_lib cross_device_ops 5 xfer_fs xfer_items))
   \<and> sent (snd (batch_file_operation example_lib cross_device_ops 5 xfer_fs xfer_items ''copy''))
       = [30, 40, 100]
   \<and> processedBytes (snd (batch_file_operation example_lib cross_device_ops 5 xfer_fs xfer_items
                             ''copy'')) = 100
   \<and> sorted (sent (snd (batch_file_operation example_lib cross_device_ops 5 xfer_fs xfer_items
                          ''copy'')))
   \<and> sent (snd (batch_file_operation example_lib failing_ops 5 xfer_fs xfer_items ''copy''))
       = [30]
   \<and> processedBytes (snd (batch_file_operation example_lib failing_ops 5 xfer_fs xfer_items
                             ''copy'')) = 30"
proof -
  let ?b = "batch_file_operation example_lib cross_device_ops 5 xfer_fs xfer_items ''copy''"
  let ?f = "batch_file_operation example_lib failing_ops 5 xfer_fs xfer_items ''copy''"
  have sc: "scan_phase example_lib cross_device_ops 5 xfer_fs xfer_items
              = Some (the (scan_phase example_lib cross_device_ops 5 xfer_fs xfer_items))"
    by code_simp
  have b: "?b = (fst ?b, snd ?b)" by simp
  have rounding: "mono (double_of example_lib) \<and> double_of example_lib 0 = 0"
    by (simp add: example_lib_def mono_def)
  have s: "sent (snd ?b) = [30, 40, 100]" by code_simp
  have p: "processedBytes (snd ?b) = 100" by code_simp
  have s': "sent (snd ?f) = [30]" by code_simp
  have p': "processedBytes (snd ?f) = 30" by code_simp
  from progress_bounded_and_monotone [OF sc b] rounding
  have "1 \<le> totalBytes (the (scan_phase example_lib cross_device_ops 5 xfer_fs xfer_items))"
    "sorted (sent (snd ?b))"
    by blast+
  with s p s' p' show ?thesis by blast
qed

text \<open>
  Claim C3, as amended. The items are processed in submission order inside one \<^verbatim>\<open>try\<close>
  block, and the first error that escapes an item's processing ends the batch: when
  the items before an item are done and that item raises an error, the batch reports
  failure with the error's message and the state is the one the failing item left, so
  no later item is attempted. The batch reports success only when every item, in turn,
  was processed without an error.
\<close>

theorem batch_aborts_at_first_error:
  assumes "scan_phase lib ops fuel s (before @ item # rest) = Some st0"
  shows "(process_items lib ops fuel operation st0 before = (Done, st1)
          \<and> process_item lib ops fuel operation st1 item = (Raised e, st2)
          \<longrightarrow> batch_file_operation lib ops fuel s (before @ item # rest) operation
                = (BatchFailure (err_message e), st2))
       \<and> (batch_file_operation lib ops fuel s (before @ item # rest) operation = (BatchSuccess, st)
          \<longrightarrow> (\<exists>st1 st2. process_items lib ops fuel operation st0 before = (Done, st1)
                  \<and> process_item lib ops fuel operation st1 item = (Done, st2)
                  \<and> process_items lib ops fuel operation st2 rest = (Done, st)))"
proof (intro conjI impI)
  assume "process_items lib ops fuel operation st0 before = (Done, st1)
          \<and> process_item lib ops fuel operation st1 item = (Raised e, st2)"
  then show "batch_file_operation lib ops fuel s (before @ item # rest) operation
                = (BatchFailure (err_message e), st2)"
    unfolding batch_result_cases [OF assms] process_items_append by simp
next
  assume ok: "batch_file_operation lib ops fuel s (before @ item # rest) operation = (BatchSuccess, st)"
  obtain o1 s1 where p1: "process_items lib ops fuel operation st0 before = (o1, s1)"
    by (cases "process_items lib ops fuel operation st0 before")
  obtain o2 s2 where p2: "process_item lib ops fuel operation s1 item = (o2, s2)"
    by (cases "process_item lib ops fuel operation s1 item")
  obtain o3 s3 where p3: "process_items lib ops fuel operation s2 rest = (o3, s3)"
    by (cases "process_items lib ops fuel operation s2 rest")
  from ok p1 have "o1 = Done"
    unfolding batch_result_cases [OF assms] process_items_append by (cases o1) simp_all
  moreover from ok p1 p2 this have "o2 = Done"
    unfolding batch_result_cases [OF assms] process_items_append by (cases o2) simp_all
  moreover from ok p1 p2 p3 calculation have "o3 = Done \<and> s3 = st"
    unfolding batch_result_cases [OF assms] process_items_append by (cases o3) simp_all
  ultimately show "\<exists>st1 st2. process_items lib ops fuel operation st0 before = (Done, st1)
                  \<and> process_item lib ops fuel operation st1 item = (Done, st2)
                  \<and> process_items lib ops fuel operation st2 rest = (Done, st)"
    using p1 p2 p3 by blast
qed

theorem batch_aborts_at_first_error_witness:
  "fst (batch_file_operation example_lib failing_ops 5 xfer_fs xfer_items ''copy'')
     = BatchFailure ''permission denied''
   \<and> fst (batch_file_operation example_lib cross_device_ops 5 xfer_fs xfer_items ''copy'')
     = BatchSuccess"
proof -
  let ?st0 = "the (scan_phase example_lib failing_ops 5 xfer_fs xfer_items)"
  have sc: "scan_phase example_lib failing_ops 5 xfer_fs ([] @ hd xfer_items # tl xfer_items)
              = Some ?st0"
    by code_simp
  have items: "[] @ hd xfer_items # tl xfer_items = xfer_items"
    by (simp add: xfer_items_def)
  have p0: "process_items example_lib failing_ops 5 ''copy'' ?st0 [] = (Done, ?st0)"
    by simp
  have p1: "fst (process_item example_lib failing_ops 5 ''copy'' ?st0 (hd xfer_items)) = Raised eacces"
    by code_simp
  then have p1': "process_item example_lib failing_ops 5 ''copy'' ?st0 (hd xfer_items)
      = (Raised eacces, snd (process_item example_lib failing_ops 5 ''copy'' ?st0 (hd xfer_items)))"
    by (metis prod.collapse)
  from batch_aborts_at_first_error [OF sc, of "''copy''" ?st0 eacces] p0 p1'
  have "fst (batch_file_operation example_lib failing_ops 5 xfer_fs xfer_items ''copy'')
     = BatchFailure (err_message eacces)"
    unfolding items by simp
  moreover have "fst (batch_file_operation example_lib cross_device_ops 5 xfer_fs xfer_items ''copy'')
     = BatchSuccess"
    by code_simp
  ultimately show ?thesis by (simp add: eacces_def)
qed

theorem batch_swallows_item_failure_counterexample:
  "fst (batch_file_operation example_lib failing_ops 5 xfer_fs xfer_items ''copy'')
     = BatchFailure ''permission denied''
   \<and> map_of (fsys (snd (batch_file_operation example_lib failing_ops 5 xfer_fs xfer_items ''copy'')))
        ''/x/b'' = None
   \<and> Stat ''/b'' \<notin> set (calls (snd (batch_file_operation example_lib failing_ops 5 xfer_fs
                                       xfer_items ''copy'')))"
  by code_simp

lemma fsys_called: "fsys (called st c) = fsys st"
  by (simp add: called_def)

text \<open>
  Claim C5. For an item of a move, the rename is attempted first, on the filesystem as
  it is. If it succeeds, nothing else is done to the filesystem, the item's scanned
  total \<^verbatim>\<open>itemSizes.get(source) || 0\<close> is added to \<open>processedBytes\<close> at once and one
  percentage is sent. If it fails, the item is processed as the copy path processes it
  (the same recursive copy, with its per-file progress), and when that is done the
  source is removed. The scan credits to the entry of its root item exactly the bytes
  it adds to \<open>totalBytes\<close>, and touches no other entry.
\<close>

theorem move_renames_or_copies_and_removes:
  assumes "operation \<noteq> ''copy''"
  shows "(fs_rename ops (fsys st) (source item) (dest item) = Inr s' \<longrightarrow>
            process_item lib ops fuel operation st item
              = (Done,
                 st\<lparr>fsys := s',
                     processedBytes := processedBytes st + item_size st (source item),
                     sent := sent st @ [percent lib (totalBytes st)
                                          (processedBytes st + item_size st (source item))],
                     calls := calls st @ [Rename (source item) (dest item)]\<rparr>))
       \<and> (fs_rename ops (fsys st) (source item) (dest item) = Inl err \<longrightarrow>
            process_item lib ops fuel operation st item
              = (case process_item lib ops fuel ''copy''
                        (called st (Rename (source item) (dest item))) item of
                   (Done, st1) \<Rightarrow>
                     (case fs_rm ops (fsys st1) (source item) of
                        Inl e \<Rightarrow> (Raised e, called st1 (Rm (source item)))
                      | Inr s2 \<Rightarrow> (Done, (called st1 (Rm (source item)))\<lparr>fsys := s2\<rparr>))
                 | (Raised e, st1) \<Rightarrow> (Raised e, st1)
                 | (OutOfFuel, st1) \<Rightarrow> (OutOfFuel, st1)))
       \<and> (scan lib ops fuel st (source item) (source item) = Some st' \<longrightarrow>
            item_size st' (source item)
              = item_size st (source item) + (totalBytes st' - totalBytes st)
            \<and> (\<forall>r. r \<noteq> source item \<longrightarrow> item_size st' r = item_size st r))"
proof -
  have renamed: "process_item lib ops fuel operation st item
              = (Done,
                 st\<lparr>fsys := s',
                     processedBytes := processedBytes st + item_size st (source item),
                     sent := sent st @ [percent lib (totalBytes st)
                                          (processedBytes st + item_size st (source item))],
                     calls := calls st @ [Rename (source item) (dest item)]\<rparr>)"
    if "fs_rename ops (fsys st) (source item) (dest item) = Inr s'"
    using that assms
    by (simp add: process_item_def called_def reportProgress_def item_size_def Let_def)
  have fallback: "process_item lib ops fuel operation st item
              = (case process_item lib ops fuel ''copy''
                        (called st (Rename (source item) (dest item))) item of
                   (Done, st1) \<Rightarrow>
                     (case fs_rm ops (fsys st1) (source item) of
                        Inl e \<Rightarrow> (Raised e, called st1 (Rm (source item)))
                      | Inr s2 \<Rightarrow> (Done, (called st1 (Rm (source item)))\<lparr>fsys := s2\<rparr>))
                 | (Raised e, st1) \<Rightarrow> (Raised e, st1)
                 | (OutOfFuel, st1) \<Rightarrow> (OutOfFuel, st1))"
    if "fs_rename ops (fsys st) (source item) (dest item) = Inl err"
    using that assms
    by (simp add: process_item_def fsys_called Let_def split: prod.splits outcome.splits)
  have credited: "item_size st' (source item)
              = item_size st (source item) + (totalBytes st' - totalBytes st)
            \<and> (\<forall>r. r \<noteq> source item \<longrightarrow> item_size st' r = item_size st r)"
    if "scan lib ops fuel st (source item) (source item) = Some st'"
    using that scan_accounting(1) [of lib ops fuel st "source item" "source item" st']
    by simp
  from renamed fallback credited show ?thesis by blast
qed

theorem move_renames_or_copies_and_removes_witness:
  "sent (snd (process_item example_lib same_device_ops 5 ''move''
                (the (scan_phase example_lib same_device_ops 5 xfer_fs xfer_items))
                (hd xfer_items))) = [40]
   \<and> sent (snd (process_item example_lib cross_device_ops 5 ''move''
                (the (scan_phase example_lib cross_device_ops 5 xfer_fs xfer_items))
                (hd xfer_items))) = [30, 40]
   \<and> item_size (the (scan_phase example_lib same_device_ops 5 xfer_fs xfer_items)) ''/a'' = 40"
proof -
  let ?st = "the (scan_phase example_lib same_device_ops 5 xfer_fs xfer_items)"
  let ?st' = "the (scan_phase example_lib cross_device_ops 5 xfer_fs xfer_items)"
  let ?item = "hd xfer_items"
  note inst = move_renames_or_copies_and_removes [of "''move''"]
  have ne: "''move'' \<noteq> ''copy''" by simp
  have r: "fs_rename same_device_ops (fsys ?st) (source ?item) (dest ?item)
             = Inr (projr (fs_rename same_device_ops (fsys ?st) (source ?item) (dest ?item)))"
    by code_simp
  have tb: "totalBytes ?st = 100" "processedBytes ?st = 0" "item_size ?st (source ?item) = 40"
    "sent ?st = []" "source ?item = ''/a''"
    by code_simp+
  from inst [OF ne, of same_device_ops ?st ?item _ example_lib 5] r
  have "sent (snd (process_item example_lib same_device_ops 5 ''move'' ?st ?item))
          = sent ?st @ [percent example_lib (totalBytes ?st)
                          (processedBytes ?st + item_size ?st (source ?item))]"
    by simp
  with tb have one: "sent (snd (process_item example_lib same_device_ops 5 ''move'' ?st ?item)) = [40]"
    by (simp add: percent_def example_lib_def)
  have two: "sent (snd (process_item example_lib cross_device_ops 5 ''move'' ?st' ?item)) = [30, 40]"
    by code_simp
  from one two tb show ?thesis by simp
qed

text \<open>
  Claim C10. In a move whose rename fails, the source is removed only after the
  recursive copy has completed: when the copy is done, the removal of the source is the
  next call after the copy's calls; when the copy raises an error, the item ends with
  that error in the state the copy left, no removal has been made, and the batch stops
  there with the error.
\<close>

theorem move_keeps_source_when_copy_fails:
  assumes "operation \<noteq> ''copy''"
    and "fs_rename ops (fsys st) (source item) (dest item) = Inl err"
    and "copyRecursive lib ops fuel (called st (Rename (source item) (dest item)))
           (source item) (dest item) = (out, st1)"
  shows "(out = Done \<longrightarrow>
            calls (snd (process_item lib ops fuel operation st item))
              = calls st1 @ [Rm (source item)])
       \<and> (out = Raised e \<longrightarrow>
            process_item lib ops fuel operation st item = (Raised e, st1)
            \<and> removals st1 = removals st
            \<and> process_items lib ops fuel operation st (item # rest) = (Raised e, st1))"
proof -
  let ?st0 = "called st (Rename (source item) (dest item))"
  from copy_keeps(1) [of lib ops fuel ?st0 "source item" "dest item" out st1] assms(3)
  have "removals st1 = removals ?st0" by simp
  then have rm: "removals st1 = removals st" by (simp add: removals_called)
  have copied: "calls (snd (process_item lib ops fuel operation st item))
                = calls st1 @ [Rm (source item)]" if "out = Done"
    using that assms
    by (auto simp: process_item_def called_def Let_def split: sum.splits)
  have raised: "process_item lib ops fuel operation st item = (Raised e, st1)" if "out = Raised e"
    using that assms by (simp add: process_item_def called_def Let_def)
  from copied raised rm show ?thesis by simp
qed

theorem move_keeps_source_when_copy_fails_witness:
  "fst (process_item example_lib failing_ops 5 ''move''
          (the (scan_phase example_lib failing_ops 5 xfer_fs xfer_items)) (hd xfer_items))
     = Raised eacces
   \<and> removals (snd (process_item example_lib failing_ops 5 ''move''
          (the (scan_phase example_lib failing_ops 5 xfer_fs xfer_items)) (hd xfer_items))) = []
   \<and> map_of (fsys (snd (process_item example_lib failing_ops 5 ''move''
          (the (scan_phase example_lib failing_ops 5 xfer_fs xfer_items)) (hd xfer_items))))
        ''/a/f'' = Some (file_node 30)"
proof -
  let ?st = "the (scan_phase example_lib failing_ops 5 xfer_fs xfer_items)"
  let ?item = "hd xfer_items"
  let ?c = "copyRecursive example_lib failing_ops 5 (called ?st (Rename (source ?item) (dest ?item)))
              (source ?item) (dest ?item)"
  have ne: "''move'' \<noteq> ''copy''" by simp
  have r: "fs_rename failing_ops (fsys ?st) (source ?item) (dest ?item) = Inl exdev"
    by code_simp
  have o: "fst ?c = Raised eacces" by code_simp
  then have c: "?c = (Raised eacces, snd ?c)" by (metis prod.collapse)
  have before: "removals ?st = []" by code_simp
  have kept: "map_of (fsys (snd ?c)) ''/a/f'' = Some (file_node 30)" by code_simp
  from move_keeps_source_when_copy_fails [OF ne r c, of eacces]
  have "process_item example_lib failing_ops 5 ''move'' ?st ?item = (Raised eacces, snd ?c)"
    "removals (snd ?c) = removals ?st"
    by simp_all
  with before kept show ?thesis by simp
qed



subsection \<open>The fuel is only a bound\<close>

text \<open>
  A scan, a copy or a batch that returns with some fuel returns the same with any larger
  fuel: the fuel bounds the depth of the recursion and decides nothing else.
\<close>


lemma scan_fuel_mono:
  "scan lib ops fuel st p rt = Some st' \<longrightarrow> scan lib ops (fuel + k) st p rt = Some st'"
  "scan_children lib ops fuel st p cs rt = Some st' \<longrightarrow>
     scan_children lib ops (fuel + k) st p cs rt = Some st'"
proof (induction lib ops fuel st p rt and lib ops fuel st p cs rt arbitrary: st' and st'
       rule: scan_scan_children.induct)
  case (1 lib ops st p rootItemPath)
  show ?case by simp
next
  case (2 lib ops fuel st p rootItemPath)
  show ?case
  proof (cases "fs_stat ops (fsys st) p")
    case (Inl e)
    then show ?thesis by auto
  next
    case (Inr stats)
    show ?thesis
    proof (cases "st_isDirectory stats")
      case False
      with Inr show ?thesis by auto
    next
      case True
      show ?thesis
      proof (cases "fs_readdir ops (fsys st) p")
        case (Inl e)
        with \<open>fs_stat ops (fsys st) p = Inr stats\<close> True show ?thesis by auto
      next
        case (Inr children)
        with \<open>fs_stat ops (fsys st) p = Inr stats\<close> True "2.IH" [of stats children st']
        show ?thesis by simp
      qed
    qed
  qed
next
  case (3 lib ops fuel st p rootItemPath)
  show ?case by simp
next
  case (4 lib ops fuel st p c cs rootItemPath)
  show ?case
  proof (cases "scan lib ops fuel st (path_join lib p c) rootItemPath")
    case None
    then show ?thesis by simp
  next
    case (Some st1)
    with "4.IH"(1) [of st1] have "scan lib ops (fuel + k) st (path_join lib p c) rootItemPath = Some st1"
      by simp
    with Some "4.IH"(2) [OF Some, of st'] show ?thesis by simp
  qed
qed

lemma copy_fuel_mono:
  "copyRecursive lib ops fuel st src dst = (out, st') \<and> out \<noteq> OutOfFuel \<longrightarrow>
     copyRecursive lib ops (fuel + k) st src dst = (out, st')"
  "copy_children lib ops fuel st src dst cs = (out, st') \<and> out \<noteq> OutOfFuel \<longrightarrow>
     copy_children lib ops (fuel + k) st src dst cs = (out, st')"
proof (induction lib ops fuel st src dst and lib ops fuel st src dst cs arbitrary: out st' and out st'
       rule: copyRecursive_copy_children.induct)
  case (1 lib ops st src dst)
  show ?case by auto
next
  case (2 lib ops fuel st src dst)
  let ?st0 = "called st (Stat src)"
  show ?case
  proof (cases "fs_stat ops (fsys ?st0) src")
    case (Inl e)
    then show ?thesis by (auto simp: Let_def)
  next
    case (Inr stats)
    show ?thesis
    proof (cases "st_isDirectory stats")
      case False
      with Inr show ?thesis by (auto simp: Let_def)
    next
      case True
      let ?st1 = "called ?st0 (Mkdir dst)"
      show ?thesis
      proof (cases "fs_mkdir ops (fsys ?st1) dst")
        case (Inl e)
        with Inr True show ?thesis by (auto simp: Let_def)
      next
        case made: (Inr s')
        let ?st2 = "called (?st1\<lparr>fsys := s'\<rparr>) (Readdir src)"
        show ?thesis
        proof (cases "fs_readdir ops (fsys ?st2) src")
          case (Inl e)
          with Inr True made show ?thesis by (auto simp: Let_def)
        next
          case listed: (Inr children)
          from "2.IH" [OF refl Inr True refl made refl listed, of out st']
          show ?thesis using Inr True made listed by (auto simp: Let_def)
        qed
      qed
    qed
  qed
next
  case (3 lib ops fuel st src dst)
  show ?case by simp
next
  case (4 lib ops fuel st src dst child children)
  obtain o1 st1 where first:
    "copyRecursive lib ops fuel st (path_join lib src child) (path_join lib dst child) = (o1, st1)"
    by (cases "copyRecursive lib ops fuel st (path_join lib src child) (path_join lib dst child)")
  show ?case
  proof (cases o1)
    case Done
    with first "4.IH"(1) [of o1 st1]
    have "copyRecursive lib ops (fuel + k) st (path_join lib src child) (path_join lib dst child)
            = (Done, st1)" by simp
    with first Done "4.IH"(2) [OF first [symmetric] Done, of out st'] show ?thesis by simp
  next
    case (Raised e)
    with first "4.IH"(1) [of o1 st1]
    have "copyRecursive lib ops (fuel + k) st (path_join lib src child) (path_join lib dst child)
            = (Raised e, st1)" by simp
    with first Raised show ?thesis by auto
  next
    case OutOfFuel
    with first show ?thesis by auto
  qed
qed


lemma scan_items_fuel_mono:
  "scan_items lib ops fuel st items = Some st' \<Longrightarrow>
   scan_items lib ops (fuel + k) st items = Some st'"
proof (induction items arbitrary: st)
  case Nil
  then show ?case by simp
next
  case (Cons item items)
  from Cons.prems obtain st1 where
    st1: "scan lib ops fuel st (source item) (source item) = Some st1"
      "scan_items lib ops fuel st1 items = Some st'"
    by (auto split: option.splits)
  from scan_fuel_mono(1) [of lib ops fuel st "source item" "source item" st1 k] st1(1)
  have "scan lib ops (fuel + k) st (source item) (source item) = Some st1" by simp
  with Cons.IH [OF st1(2)] show ?case by simp
qed

lemma process_item_fuel_mono:
  assumes "process_item lib ops fuel operation st item = (out, st')" "out \<noteq> OutOfFuel"
  shows "process_item lib ops (fuel + k) operation st item = (out, st')"
proof (cases "operation = ''copy''")
  case True
  with assms copy_fuel_mono(1) [of lib ops fuel st "source item" "dest item" out st' k]
  show ?thesis by (simp add: process_item_def)
next
  case False
  let ?st0 = "called st (Rename (source item) (dest item))"
  show ?thesis
  proof (cases "fs_rename ops (fsys ?st0) (source item) (dest item)")
    case (Inr s')
    with assms False show ?thesis by (simp add: process_item_def Let_def)
  next
    case (Inl err)
    obtain o1 st1 where copy:
      "copyRecursive lib ops fuel ?st0 (source item) (dest item) = (o1, st1)"
      by (cases "copyRecursive lib ops fuel ?st0 (source item) (dest item)")
    have "o1 \<noteq> OutOfFuel"
      using assms False Inl copy by (auto simp: process_item_def Let_def)
    with copy copy_fuel_mono(1) [of lib ops fuel ?st0 "source item" "dest item" o1 st1 k]
    have "copyRecursive lib ops (fuel + k) ?st0 (source item) (dest item) = (o1, st1)" by simp
    with assms False Inl copy show ?thesis by (simp add: process_item_def Let_def)
  qed
qed

lemma process_items_fuel_mono:
  "process_items lib ops fuel operation st items = (out, st') \<Longrightarrow> out \<noteq> OutOfFuel \<Longrightarrow>
   process_items lib ops (fuel + k) operation st items = (out, st')"
proof (induction items arbitrary: st)
  case Nil
  then show ?case by simp
next
  case (Cons item items)
  obtain o1 st1 where first: "process_item lib ops fuel operation st item = (o1, st1)"
    by (cases "process_item lib ops fuel operation st item")
  have ne: "o1 \<noteq> OutOfFuel" using Cons.prems first by auto
  from process_item_fuel_mono [OF first ne]
  have more: "process_item lib ops (fuel + k) operation st item = (o1, st1)" .
  show ?case
  proof (cases o1)
    case Done
    with Cons.prems first have "process_items lib ops fuel operation st1 items = (out, st')"
      by simp
    from Cons.IH [OF this Cons.prems(2)] more Done show ?thesis by simp
  next
    case (Raised e)
    with Cons.prems first more show ?thesis by auto
  next
    case OutOfFuel
    with ne show ?thesis by simp
  qed
qed

lemma batch_fuel_mono:
  assumes "batch_file_operation lib ops fuel s items operation = (res, st)" "res \<noteq> NoReturn"
  shows "batch_file_operation lib ops (fuel + k) s items operation = (res, st)"
proof -
  from assms obtain st0 where sc: "scan_phase lib ops fuel s items = Some st0"
    by (auto simp: batch_file_operation_def split: option.splits)
  then have sc': "scan_phase lib ops (fuel + k) s items = Some st0"
    by (auto simp: scan_phase_def split: option.splits dest: scan_items_fuel_mono [where k = k])
  obtain out st1 where run: "process_items lib ops fuel operation st0 items = (out, st1)"
    by (cases "process_items lib ops fuel operation st0 items")
  have ne: "out \<noteq> OutOfFuel"
    using assms sc run by (auto simp: batch_file_operation_def)
  from process_items_fuel_mono [OF run ne]
  have "process_items lib ops (fuel + k) operation st0 items = (out, st1)" .
  with assms sc sc' run show ?thesis by (simp add: batch_file_operation_def)
qed


end
